theory Spec2Isabelle
  imports Main "HOL-Library.AList"
begin

section \<open>Python values, the object store and exceptions\<close>

text \<open>
  The orchestrator \<^verbatim>\<open>ConvEL\<close> of \<^verbatim>\<open>REL/crel/conv_el.py\<close> is embedded with an
  explicit object store. Immutable scalars (\<^verbatim>\<open>None\<close>, integers, strings) are atoms and
  compare by value; lists and dicts are objects of the store and are named by reference.
  An address is an index into the store, so allocation appends and is always fresh.
\<close>

datatype atom = ANone | AInt int | AStr string

datatype pyval = Atom atom | Ref nat

datatype obj = OList "pyval list" | ODict "(pyval \<times> pyval) list"

definition lookup :: "obj list \<Rightarrow> nat \<Rightarrow> obj option" where
  "lookup h a = (if a < length h then Some (h ! a) else None)"

text \<open>
  The message of an assertion tells the assertion sites of this module apart: the bare
  asserts of \<^verbatim>\<open>_error_check\<close>, the speaker message (which quotes the offending speaker),
  and the message of the single assertion in \<^verbatim>\<open>_pe\<close>.

  A collaborator may raise an exception of any class, an \<^verbatim>\<open>AssertionError\<close> or an
  \<^verbatim>\<open>IndexError\<close> of its own included; \<^verbatim>\<open>ConvEL\<close> catches nothing, so the exception
  propagates as it is. The model writes it \<open>Propagated c\<close>, with \<open>c\<close> the class of the
  exception: this records where the exception was raised, and keeps it apart from the
  exceptions that the statements of this module raise themselves.
\<close>

datatype assert_msg = NoMessage | SpeakerMessage pyval | OneTargetMessage

datatype pyexc =
    PyAssertionError
  | PyIndexError
  | PyKeyError
  | PyTypeError
  | PyValueError
  | PyOther nat

datatype error =
    AssertionError assert_msg
  | IndexError
  | KeyError pyval
  | TypeError
  | ValueError
  | Propagated pyexc

abbreviation USER :: pyval where "USER \<equiv> Atom (AStr ''USER'')"
abbreviation SYSTEM :: pyval where "SYSTEM \<equiv> Atom (AStr ''SYSTEM'')"
abbreviation k_speaker :: pyval where "k_speaker \<equiv> Atom (AStr ''speaker'')"
abbreviation k_utterance :: pyval where "k_utterance \<equiv> Atom (AStr ''utterance'')"
abbreviation k_annotations :: pyval where "k_annotations \<equiv> Atom (AStr ''annotations'')"

section \<open>The state of a ConvEL instance\<close>

text \<open>
  A record of \<^verbatim>\<open>self.conv_hist_for_pe\<close>: the dict gets its \<^verbatim>\<open>speaker\<close> and
  \<^verbatim>\<open>utterance\<close> keys in \<^verbatim>\<open>annotate\<close>; the keys \<^verbatim>\<open>mentions\<close> and \<^verbatim>\<open>pems\<close> are
  absent (\<open>None\<close>) until \<^verbatim>\<open>_el\<close> and \<^verbatim>\<open>_pe\<close> write them.
\<close>

record turn_hist =
  speaker :: pyval
  utterance :: pyval
  mentions :: "atom list option"
  pems :: "atom list option"

record state =
  conv_hist_for_pe :: "turn_hist list"
  ment2ent :: "atom \<rightharpoonup> atom"
  heap :: "obj list"

text \<open>
  The collaborators are loaded models and helpers whose code is outside this module. They
  are parameters: functions that either raise an exception, of any class, or return rows
  (lists of atoms), and, for the personal-entity scorer, values of opaque types. The
  postprocessor returns dicts with string keys.
\<close>

record ('tok, 'inp, 'sc, 'th) collab =
  md :: "pyval \<Rightarrow> pyexc + atom list list"
  generate_response :: "pyval \<Rightarrow> atom list list \<Rightarrow> pyexc + atom list list"
  pem_detector :: "pyval \<Rightarrow> pyexc + atom list list"
  get_tokens_with_info :: "turn_hist list \<Rightarrow> pyexc + 'tok"
  get_input_of_pe_linking :: "'tok \<Rightarrow> pyexc + 'inp list"
  get_scores :: "'inp \<Rightarrow> pyexc + 'sc"
  get_results :: "'inp \<Rightarrow> turn_hist list \<Rightarrow> 'th \<Rightarrow> 'sc \<Rightarrow> pyexc + (string \<times> atom) list list"
  threshold :: 'th

section \<open>Computations that mutate the state and may raise\<close>

type_synonym 'a prog = "state \<Rightarrow> (error + 'a) \<times> state"

definition returnE :: "'a \<Rightarrow> 'a prog" where
  "returnE x = (\<lambda>s. (Inr x, s))"

definition raiseE :: "error \<Rightarrow> 'a prog" where
  "raiseE e = (\<lambda>s. (Inl e, s))"

definition bindE :: "'a prog \<Rightarrow> ('a \<Rightarrow> 'b prog) \<Rightarrow> 'b prog" where
  "bindE m f = (\<lambda>s. case m s of (Inl e, s') \<Rightarrow> (Inl e, s') | (Inr x, s') \<Rightarrow> f x s')"

definition liftE :: "error + 'a \<Rightarrow> 'a prog" where
  "liftE r = (\<lambda>s. (r, s))"

text \<open>A call of a collaborator: what it raises propagates.\<close>

definition call :: "pyexc + 'a \<Rightarrow> 'a prog" where
  "call r = (case r of Inl c \<Rightarrow> raiseE (Propagated c) | Inr x \<Rightarrow> returnE x)"

definition assertE :: "bool \<Rightarrow> assert_msg \<Rightarrow> unit prog" where
  "assertE b msg = (if b then returnE () else raiseE (AssertionError msg))"

definition bindR :: "error + 'a \<Rightarrow> ('a \<Rightarrow> error + 'b) \<Rightarrow> error + 'b" where
  "bindR r f = (case r of Inl e \<Rightarrow> Inl e | Inr x \<Rightarrow> f x)"

fun mapR :: "('a \<Rightarrow> error + 'b) \<Rightarrow> 'a list \<Rightarrow> error + 'b list" where
  "mapR f [] = Inr []"
| "mapR f (x # xs) = bindR (f x) (\<lambda>y. bindR (mapR f xs) (\<lambda>ys. Inr (y # ys)))"

fun mapE :: "('a \<Rightarrow> 'b prog) \<Rightarrow> 'a list \<Rightarrow> 'b list prog" where
  "mapE f [] = returnE []"
| "mapE f (x # xs) = bindE (f x) (\<lambda>y. bindE (mapE f xs) (\<lambda>ys. returnE (y # ys)))"

subsection \<open>Indexing, unpacking and dict access\<close>

definition index :: "'a list \<Rightarrow> nat \<Rightarrow> error + 'a" where
  "index xs i = (if i < length xs then Inr (xs ! i) else Inl IndexError)"

definition unpack3 :: "'a list \<Rightarrow> error + ('a \<times> 'a \<times> 'a)" where
  "unpack3 xs = (case xs of [a, b, c] \<Rightarrow> Inr (a, b, c) | _ \<Rightarrow> Inl ValueError)"

definition getkey :: "(string \<times> atom) list \<Rightarrow> string \<Rightarrow> error + atom" where
  "getkey d k = (case map_of d k of None \<Rightarrow> Inl (KeyError (Atom (AStr k))) | Some v \<Rightarrow> Inr v)"

definition getmap :: "(atom \<rightharpoonup> 'a) \<Rightarrow> atom \<Rightarrow> error + 'a" where
  "getmap m k = (case m k of None \<Rightarrow> Inl (KeyError (Atom k)) | Some v \<Rightarrow> Inr v)"

text \<open>\<^verbatim>\<open>v[k]\<close> for a string key \<open>k\<close>: only a dict can be subscripted by a string.\<close>

definition getitem :: "obj list \<Rightarrow> pyval \<Rightarrow> pyval \<Rightarrow> error + pyval" where
  "getitem h v k =
     (case v of
        Ref a \<Rightarrow>
          (case lookup h a of
             Some (ODict kvs) \<Rightarrow>
               (case map_of kvs k of None \<Rightarrow> Inl (KeyError k) | Some x \<Rightarrow> Inr x)
           | _ \<Rightarrow> Inl TypeError)
      | Atom _ \<Rightarrow> Inl TypeError)"

text \<open>\<^verbatim>\<open>for turn in v\<close>: a list yields its elements, a dict its keys, a string its
  characters; nothing else modelled here is iterable.\<close>

definition iter :: "obj list \<Rightarrow> pyval \<Rightarrow> error + pyval list" where
  "iter h v =
     (case v of
        Ref a \<Rightarrow>
          (case lookup h a of
             Some (OList xs) \<Rightarrow> Inr xs
           | Some (ODict kvs) \<Rightarrow> Inr (map fst kvs)
           | None \<Rightarrow> Inl TypeError)
      | Atom (AStr cs) \<Rightarrow> Inr (map (\<lambda>c. Atom (AStr [c])) cs)
      | Atom _ \<Rightarrow> Inl TypeError)"

definition read_heap :: "(obj list \<Rightarrow> error + 'a) \<Rightarrow> 'a prog" where
  "read_heap f = (\<lambda>s. (f (heap s), s))"

definition alloc :: "obj \<Rightarrow> pyval prog" where
  "alloc ob = (\<lambda>s. (Inr (Ref (length (heap s))), s\<lparr>heap := heap s @ [ob]\<rparr>))"

text \<open>\<^verbatim>\<open>v[k] = x\<close> on a dict of the store: the key keeps its place if present and is
  added at the end otherwise.\<close>

definition setitem :: "pyval \<Rightarrow> pyval \<Rightarrow> pyval \<Rightarrow> unit prog" where
  "setitem v k x =
     (\<lambda>s. case v of
        Ref a \<Rightarrow>
          (case lookup (heap s) a of
             Some (ODict kvs) \<Rightarrow>
               (Inr (), s\<lparr>heap := (heap s)[a := ODict (AList.update k x kvs)]\<rparr>)
           | _ \<Rightarrow> (Inl TypeError, s))
      | Atom _ \<Rightarrow> (Inl TypeError, s))"

text \<open>A freshly built list of rows, stored as one list object per row and one for the
  list of rows.\<close>

definition alloc_rows :: "atom list list \<Rightarrow> pyval prog" where
  "alloc_rows rows =
     bindE (mapE (\<lambda>r. alloc (OList (map Atom r))) rows) (\<lambda>refs. alloc (OList refs))"

section \<open>Input validation: \<^verbatim>\<open>_error_check\<close>\<close>

definition check_turn :: "obj list \<Rightarrow> pyval \<Rightarrow> error + unit" where
  "check_turn h turn =
     (case turn of
        Ref b \<Rightarrow>
          (case lookup h b of
             Some (ODict kvs) \<Rightarrow>
               (if set (map fst kvs) = {k_speaker, k_utterance} then
                  bindR (getitem h turn k_speaker) (\<lambda>sp.
                    if sp \<in> set [USER, SYSTEM] then Inr ()
                    else Inl (AssertionError (SpeakerMessage sp)))
                else Inl (AssertionError NoMessage))
           | _ \<Rightarrow> Inl (AssertionError NoMessage))
      | Atom _ \<Rightarrow> Inl (AssertionError NoMessage))"

fun check_turns :: "obj list \<Rightarrow> pyval list \<Rightarrow> error + unit" where
  "check_turns h [] = Inr ()"
| "check_turns h (turn # turns) = bindR (check_turn h turn) (\<lambda>_. check_turns h turns)"

definition error_check :: "obj list \<Rightarrow> pyval \<Rightarrow> error + unit" where
  "error_check h conv =
     (case conv of
        Ref a \<Rightarrow>
          (case lookup h a of
             Some (OList turns) \<Rightarrow> check_turns h turns
           | _ \<Rightarrow> Inl (AssertionError NoMessage))
      | Atom _ \<Rightarrow> Inl (AssertionError NoMessage))"

section \<open>Entity linking: \<^verbatim>\<open>ed\<close> and \<^verbatim>\<open>_el\<close>\<close>

definition ed ::
  "('tok, 'inp, 'sc, 'th) collab \<Rightarrow> pyval \<Rightarrow> atom list list \<Rightarrow> atom list list prog" where
  "ed M text spans =
     bindE (call (generate_response M text spans)) (\<lambda>response.
       returnE (map (\<lambda>ent. ent) response))"

text \<open>\<^verbatim>\<open>self.conv_hist_for_pe[-1][key] = v\<close>, through an update \<open>upd\<close> of the record.\<close>

definition set_last :: "(turn_hist \<Rightarrow> turn_hist) \<Rightarrow> unit prog" where
  "set_last upd =
     (\<lambda>s. if conv_hist_for_pe s = [] then (Inl IndexError, s)
          else (Inr (), s\<lparr>conv_hist_for_pe :=
                  butlast (conv_hist_for_pe s) @ [upd (last (conv_hist_for_pe s))]\<rparr>))"

text \<open>The dict comprehension \<^verbatim>\<open>{r[2]: r[3] for r in el_results}\<close>: a later row
  overwrites an earlier one with the same key.\<close>

fun dict_of_rows :: "(atom list \<Rightarrow> error + 'v) \<Rightarrow> atom list list \<Rightarrow> (atom \<rightharpoonup> 'v)
    \<Rightarrow> error + (atom \<rightharpoonup> 'v)" where
  "dict_of_rows val [] d = Inr d"
| "dict_of_rows val (r # rs) d =
     bindR (index r 2) (\<lambda>k. bindR (val r) (\<lambda>v. dict_of_rows val rs (d(k \<mapsto> v))))"

definition el :: "('tok, 'inp, 'sc, 'th) collab \<Rightarrow> pyval \<Rightarrow> atom list list prog" where
  "el M utt =
     bindE (call (md M utt)) (\<lambda>md_results.
     bindE (liftE (mapR (\<lambda>r. bindR (index r 0) (\<lambda>a. bindR (index r 1) (\<lambda>b. Inr [a, b])))
                    md_results)) (\<lambda>spans.
     bindE (ed M utt spans) (\<lambda>el_results.
     bindE (liftE (mapR (\<lambda>r. index r 2) el_results)) (\<lambda>ms.
     bindE (set_last (\<lambda>t. t\<lparr>mentions := Some ms\<rparr>)) (\<lambda>_.
     bindE (liftE (dict_of_rows (\<lambda>r. index r 3) el_results Map.empty)) (\<lambda>d.
     bindE (\<lambda>s. (Inr (), s\<lparr>ment2ent := ment2ent s ++ d\<rparr>)) (\<lambda>_.
     returnE (map (take 4) el_results))))))))"

section \<open>Personal-entity linking: \<^verbatim>\<open>_pe\<close>\<close>

text \<open>The body of the loop over the detected personal mentions (step 2).\<close>

definition pe_target ::
  "('tok, 'inp, 'sc, 'th) collab \<Rightarrow> atom list \<Rightarrow> (string \<times> atom) list list
    \<Rightarrow> (string \<times> atom) list list prog" where
  "pe_target M row outputs =
     bindE (liftE (unpack3 row)) (\<lambda>(_, _, pem).
     bindE (set_last (\<lambda>t. t\<lparr>pems := Some [pem]\<rparr>)) (\<lambda>_.
     bindE (\<lambda>s. call (get_tokens_with_info M (conv_hist_for_pe s)) s) (\<lambda>token_with_info.
     bindE (call (get_input_of_pe_linking M token_with_info)) (\<lambda>input_data.
     bindE (assertE (length input_data = 1) OneTargetMessage) (\<lambda>_.
     bindE (liftE (index input_data 0)) (\<lambda>input_data0.
     bindE (call (get_scores M input_data0)) (\<lambda>scores.
     bindE (\<lambda>s. call (get_results M input_data0 (conv_hist_for_pe s) (threshold M) scores) s)
       (\<lambda>res.
     returnE (outputs @ res)))))))))"

fun pe_targets ::
  "('tok, 'inp, 'sc, 'th) collab \<Rightarrow> atom list list \<Rightarrow> (string \<times> atom) list list
    \<Rightarrow> (string \<times> atom) list list prog" where
  "pe_targets M [] outputs = returnE outputs"
| "pe_targets M (row # rows) outputs =
     bindE (pe_target M row outputs) (\<lambda>outputs'. pe_targets M rows outputs')"

text \<open>The loop of step 3: one annotation per accepted result.\<close>

fun pe_entities :: "(atom \<rightharpoonup> atom list) \<Rightarrow> (atom \<rightharpoonup> atom) \<Rightarrow> (string \<times> atom) list list
    \<Rightarrow> atom list list \<Rightarrow> error + atom list list" where
  "pe_entities pem2result m2e [] ret = Inr ret"
| "pe_entities pem2result m2e (r # rs) ret =
     bindR (getkey r ''personal_entity_mention'') (\<lambda>pem.
     bindR (getmap pem2result pem) (\<lambda>pem_result.
     bindR (getkey r ''mention'') (\<lambda>eem.
     bindR (getmap m2e eem) (\<lambda>ent.
     bindR (index pem_result 0) (\<lambda>p0.
     bindR (index pem_result 1) (\<lambda>p1.
     bindR (index pem_result 2) (\<lambda>p2.
     pe_entities pem2result m2e rs (ret @ [[p0, p1, p2, ent]]))))))))"

definition pe :: "('tok, 'inp, 'sc, 'th) collab \<Rightarrow> pyval \<Rightarrow> atom list list prog" where
  "pe M utt =
     bindE (call (pem_detector M utt)) (\<lambda>pem_results.
     bindE (liftE (dict_of_rows Inr pem_results Map.empty)) (\<lambda>pem2result.
     bindE (pe_targets M pem_results []) (\<lambda>outputs.
     bindE (set_last (\<lambda>t. t\<lparr>pems := Some []\<rparr>)) (\<lambda>_.
     (\<lambda>s. liftE (pe_entities pem2result (ment2ent s) outputs []) s)))))"

section \<open>The public call: \<^verbatim>\<open>annotate\<close>\<close>

text \<open>The body of the loop over the turns; \<open>ret\<close> is the list built so far.\<close>

definition annotate_turn ::
  "('tok, 'inp, 'sc, 'th) collab \<Rightarrow> pyval \<Rightarrow> pyval list \<Rightarrow> pyval list prog" where
  "annotate_turn M turn ret =
     bindE (read_heap (\<lambda>h. getitem h turn k_utterance)) (\<lambda>utt.
     bindE (read_heap (\<lambda>h. getitem h turn k_speaker)) (\<lambda>sp.
     bindE (assertE (sp \<in> set [USER, SYSTEM]) (SpeakerMessage sp)) (\<lambda>_.
     bindE (read_heap (\<lambda>h. getitem h turn k_speaker)) (\<lambda>sp1.
     bindE (alloc (ODict [(k_speaker, sp1), (k_utterance, utt)])) (\<lambda>d.
     bindE (returnE (ret @ [d])) (\<lambda>ret.
     bindE (read_heap (\<lambda>h. getitem h turn k_speaker)) (\<lambda>sp2.
     bindE (\<lambda>s. (Inr (), s\<lparr>conv_hist_for_pe := conv_hist_for_pe s @
              [\<lparr>speaker = sp2, utterance = utt, mentions = None, pems = None\<rparr>]\<rparr>)) (\<lambda>_.
     bindE (read_heap (\<lambda>h. getitem h turn k_speaker)) (\<lambda>sp3.
     if sp3 = USER then
       bindE (el M utt) (\<lambda>el_results.
       bindE (pe M utt) (\<lambda>pe_results.
       bindE (alloc_rows (el_results @ pe_results)) (\<lambda>anns.
       bindE (liftE (index ret (length ret - 1))) (\<lambda>r.
       bindE (setitem r k_annotations anns) (\<lambda>_.
       returnE ret)))))
     else returnE ret)))))))))"

fun annotate_loop ::
  "('tok, 'inp, 'sc, 'th) collab \<Rightarrow> pyval list \<Rightarrow> pyval list \<Rightarrow> pyval list prog" where
  "annotate_loop M [] ret = returnE ret"
| "annotate_loop M (turn # turns) ret =
     bindE (annotate_turn M turn ret) (\<lambda>ret'. annotate_loop M turns ret')"

definition annotate :: "('tok, 'inp, 'sc, 'th) collab \<Rightarrow> pyval \<Rightarrow> pyval list prog" where
  "annotate M conv =
     bindE (read_heap (\<lambda>h. error_check h conv)) (\<lambda>_.
     bindE (\<lambda>s. (Inr (), s\<lparr>conv_hist_for_pe := []\<rparr>)) (\<lambda>_.
     bindE (\<lambda>s. (Inr (), s\<lparr>ment2ent := Map.empty\<rparr>)) (\<lambda>_.
     bindE (read_heap (\<lambda>h. iter h conv)) (\<lambda>turns.
     annotate_loop M turns []))))"

section \<open>Reading the store, and the validity of an input\<close>

definition is_list :: "obj list \<Rightarrow> pyval \<Rightarrow> bool" where
  "is_list h v = (case v of Ref a \<Rightarrow> (case lookup h a of Some (OList _) \<Rightarrow> True | _ \<Rightarrow> False)
                  | Atom _ \<Rightarrow> False)"

definition list_items :: "obj list \<Rightarrow> pyval \<Rightarrow> pyval list" where
  "list_items h v = (case v of Ref a \<Rightarrow> (case lookup h a of Some (OList xs) \<Rightarrow> xs | _ \<Rightarrow> [])
                  | Atom _ \<Rightarrow> [])"

definition is_dict :: "obj list \<Rightarrow> pyval \<Rightarrow> bool" where
  "is_dict h v = (case v of Ref a \<Rightarrow> (case lookup h a of Some (ODict _) \<Rightarrow> True | _ \<Rightarrow> False)
                  | Atom _ \<Rightarrow> False)"

definition dict_items :: "obj list \<Rightarrow> pyval \<Rightarrow> (pyval \<times> pyval) list" where
  "dict_items h v = (case v of Ref a \<Rightarrow> (case lookup h a of Some (ODict kvs) \<Rightarrow> kvs | _ \<Rightarrow> [])
                  | Atom _ \<Rightarrow> [])"

text \<open>The rows of a list of lists held in the store.\<close>

definition read_rows :: "obj list \<Rightarrow> pyval \<Rightarrow> pyval list list" where
  "read_rows h v = map (list_items h) (list_items h v)"

text \<open>A valid conversation, in the words of the specification: a list of dicts, each with
  exactly the keys \<^verbatim>\<open>speaker\<close> and \<^verbatim>\<open>utterance\<close> and a speaker that is \<^verbatim>\<open>USER\<close> or
  \<^verbatim>\<open>SYSTEM\<close>.\<close>

definition valid_turn :: "obj list \<Rightarrow> pyval \<Rightarrow> bool" where
  "valid_turn h t = (is_dict h t \<and> set (map fst (dict_items h t)) = {k_speaker, k_utterance}
      \<and> (map_of (dict_items h t) k_speaker = Some USER
         \<or> map_of (dict_items h t) k_speaker = Some SYSTEM))"

definition valid_conv :: "obj list \<Rightarrow> pyval \<Rightarrow> bool" where
  "valid_conv h conv = (is_list h conv \<and> list_all (valid_turn h) (list_items h conv))"

section \<open>What the result carries, and the clean history\<close>

text \<open>The record \<open>r\<close> of the result, read in the store \<open>h'\<close>, carries the speaker and the
  utterance of the input turn, read in the store \<open>h\<close>, and has the key \<^verbatim>\<open>annotations\<close>
  exactly when the speaker of the turn is \<^verbatim>\<open>USER\<close>.\<close>

definition carries :: "obj list \<Rightarrow> pyval \<Rightarrow> obj list \<Rightarrow> pyval \<Rightarrow> bool" where
  "carries h turn h' r =
     (is_dict h' r \<and>
      map_of (dict_items h' r) k_speaker = map_of (dict_items h turn) k_speaker \<and>
      map_of (dict_items h' r) k_utterance = map_of (dict_items h turn) k_utterance \<and>
      (k_annotations \<in> set (map fst (dict_items h' r))) =
        (map_of (dict_items h turn) k_speaker = Some USER))"

text \<open>The exceptions that the processing of a turn can raise: an exception propagated from
  a collaborator, an index, unpacking or key error on what a collaborator returned, and the
  single-target assertion of \<^verbatim>\<open>_pe\<close>.\<close>

definition pipeline_error :: "error \<Rightarrow> bool" where
  "pipeline_error e =
     (case e of
        AssertionError m \<Rightarrow> m = OneTargetMessage
      | IndexError \<Rightarrow> True
      | KeyError k \<Rightarrow> True
      | ValueError \<Rightarrow> True
      | Propagated n \<Rightarrow> True
      | TypeError \<Rightarrow> False)"

text \<open>The state in which one personal mention is the target: the \<^verbatim>\<open>pems\<close> field of the
  last record of the history holds exactly that mention.\<close>

definition with_target :: "atom \<Rightarrow> state \<Rightarrow> state" where
  "with_target pem s = s\<lparr>conv_hist_for_pe :=
      butlast (conv_hist_for_pe s) @ [(last (conv_hist_for_pe s))\<lparr>pems := Some [pem]\<rparr>]\<rparr>"

text \<open>A record of the history with no target personal mention left in it: the record of a
  USER turn after personal-entity linking, or the record of a SYSTEM turn, which has neither
  \<^verbatim>\<open>pems\<close> nor \<^verbatim>\<open>mentions\<close>.\<close>

definition clean_turn :: "turn_hist \<Rightarrow> bool" where
  "clean_turn t = ((speaker t = USER \<and> pems t = Some []) \<or>
                   (speaker t = SYSTEM \<and> pems t = None \<and> mentions t = None))"

text \<open>The state changes that open a turn (the fresh record of the result and the fresh
  record of the history) and that close a USER turn (the annotations stored in the fresh
  record).\<close>

definition new_record :: "pyval \<Rightarrow> pyval \<Rightarrow> obj" where
  "new_record sp utt = ODict [(k_speaker, sp), (k_utterance, utt)]"

definition new_hist :: "pyval \<Rightarrow> pyval \<Rightarrow> turn_hist" where
  "new_hist sp utt = \<lparr>speaker = sp, utterance = utt, mentions = None, pems = None\<rparr>"

definition begin_turn :: "pyval \<Rightarrow> pyval \<Rightarrow> state \<Rightarrow> state" where
  "begin_turn sp utt s = s\<lparr>heap := heap s @ [new_record sp utt],
      conv_hist_for_pe := conv_hist_for_pe s @ [new_hist sp utt]\<rparr>"

definition finish_turn :: "obj list \<Rightarrow> pyval \<Rightarrow> atom list list \<Rightarrow> state \<Rightarrow> state" where
  "finish_turn h utt rows s =
     s\<lparr>heap := h @ [ODict [(k_speaker, USER), (k_utterance, utt),
                          (k_annotations, Ref (length h + 1 + length rows))]]
               @ map (\<lambda>r. OList (map Atom r)) rows
               @ [OList (map (\<lambda>i. Ref (length h + 1 + i)) [0 ..< length rows])]\<rparr>"


text \<open>The entity of the last of the results \<open>rows\<close> that carries the mention text \<open>k\<close>, and
  \<open>d\<close> when none of them carries it.\<close>

definition latest :: "atom list list \<Rightarrow> atom option \<Rightarrow> atom \<Rightarrow> atom option" where
  "latest rows d k =
     (case filter (\<lambda>a. a ! 2 = k) rows of [] \<Rightarrow> d | a # as \<Rightarrow> Some (last (a # as) ! 3))"

text \<open>The entity-linking results of turn \<open>i\<close>: what \<^verbatim>\<open>_el\<close> returns on the utterance of the
  turn in the state that the turns before it leave, for a USER turn, and nothing for a SYSTEM
  turn.\<close>

definition linked_at ::
  "('tok, 'inp, 'sc, 'th) collab \<Rightarrow> obj list \<Rightarrow> pyval list \<Rightarrow> pyval list \<Rightarrow> state \<Rightarrow> nat
     \<Rightarrow> atom list list \<Rightarrow> bool" where
  "linked_at M h turns ret st i elr =
     (\<exists>ret_i s_i. annotate_loop M (take i turns) ret st = (Inr ret_i, s_i) \<and>
        ((map_of (dict_items h (turns ! i)) k_speaker = Some SYSTEM \<and> elr = []) \<or>
         (\<exists>utt s2. map_of (dict_items h (turns ! i)) k_speaker = Some USER \<and>
            map_of (dict_items h (turns ! i)) k_utterance = Some utt \<and>
            el M utt (begin_turn USER utt s_i) = (Inr elr, s2))))"

section \<open>Auxiliary notions for the proofs\<close>

text \<open>Every run of \<open>p\<close> relates the state before to the state after by \<open>R\<close>, whether it
  returns or raises; and every exception that \<open>p\<close> can raise satisfies \<open>P\<close>.\<close>

definition steps :: "(state \<Rightarrow> state \<Rightarrow> bool) \<Rightarrow> 'a prog \<Rightarrow> bool" where
  "steps R p = (\<forall>s. R s (snd (p s)))"

definition raises :: "(error \<Rightarrow> bool) \<Rightarrow> 'a prog \<Rightarrow> bool" where
  "raises P p = (\<forall>s e s'. p s = (Inl e, s') \<longrightarrow> P e)"

text \<open>Relations between the state before and after a step: the store is kept; the mention
  map is kept; only the last record of the history is touched, its speaker and utterance
  being kept.\<close>

definition same_heap :: "state \<Rightarrow> state \<Rightarrow> bool" where
  "same_heap s s' = (heap s' = heap s)"

definition same_map :: "state \<Rightarrow> state \<Rightarrow> bool" where
  "same_map s s' = (ment2ent s' = ment2ent s)"

definition touches_last :: "state \<Rightarrow> state \<Rightarrow> bool" where
  "touches_last s s' =
     (length (conv_hist_for_pe s') = length (conv_hist_for_pe s) \<and>
      butlast (conv_hist_for_pe s') = butlast (conv_hist_for_pe s) \<and>
      (conv_hist_for_pe s \<noteq> [] \<longrightarrow>
         speaker (last (conv_hist_for_pe s')) = speaker (last (conv_hist_for_pe s)) \<and>
         utterance (last (conv_hist_for_pe s')) = utterance (last (conv_hist_for_pe s))))"

section \<open>A sample conversation with sample collaborators\<close>

text \<open>A USER turn followed by a SYSTEM turn, collaborators that detect one explicit
  mention and one personal mention in every utterance, and the state of an instance as
  \<^verbatim>\<open>__init__\<close> leaves it: an empty history and an empty mention map.\<close>

definition M0 :: "(unit, unit, unit, int) collab" where
  "M0 = \<lparr> md = (\<lambda>utt. Inr [[AInt 7, AInt 3, AStr ''Rex'']]),
          generate_response = (\<lambda>text spans.
             Inr [[AInt 7, AInt 3, AStr ''Rex'', AStr ''Rex_(dog)'', AInt 1]]),
          pem_detector = (\<lambda>utt. Inr [[AInt 0, AInt 6, AStr ''my dog'']]),
          get_tokens_with_info = (\<lambda>h. Inr ()),
          get_input_of_pe_linking = (\<lambda>t. Inr [()]),
          get_scores = (\<lambda>i. Inr ()),
          get_results = (\<lambda>i h th sc.
             Inr [[(''personal_entity_mention'', AStr ''my dog''), (''mention'', AStr ''Rex'')]]),
          threshold = 0 \<rparr>"

definition heap0 :: "obj list" where
  "heap0 = [OList [Ref 1, Ref 2],
            ODict [(k_speaker, USER), (k_utterance, Atom (AStr ''my dog Rex''))],
            ODict [(k_speaker, SYSTEM), (k_utterance, Atom (AStr ''ok''))]]"

definition s0 :: state where
  "s0 = \<lparr>conv_hist_for_pe = [], ment2ent = Map.empty, heap = heap0\<rparr>"

text \<open>The state that the sample call leaves behind.\<close>

definition heap0' :: "obj list" where
  "heap0' = heap0 @
     [ODict [(k_speaker, USER), (k_utterance, Atom (AStr ''my dog Rex'')), (k_annotations, Ref 6)],
      OList [Atom (AInt 7), Atom (AInt 3), Atom (AStr ''Rex''), Atom (AStr ''Rex_(dog)'')],
      OList [Atom (AInt 0), Atom (AInt 6), Atom (AStr ''my dog''), Atom (AStr ''Rex_(dog)'')],
      OList [Ref 4, Ref 5],
      ODict [(k_speaker, SYSTEM), (k_utterance, Atom (AStr ''ok''))]]"

definition s0' :: state where
  "s0' = \<lparr>conv_hist_for_pe =
            [\<lparr>speaker = USER, utterance = Atom (AStr ''my dog Rex''),
              mentions = Some [AStr ''Rex''], pems = Some []\<rparr>,
             \<lparr>speaker = SYSTEM, utterance = Atom (AStr ''ok''), mentions = None, pems = None\<rparr>],
          ment2ent = [AStr ''Rex'' \<mapsto> AStr ''Rex_(dog)''],
          heap = heap0'\<rparr>"

text \<open>The utterance and the detected personal mention of the sample USER turn, and the
  states of the sample call before and after entity linking of that turn.\<close>

definition utt0 :: pyval where "utt0 = Atom (AStr ''my dog Rex'')"

definition row0 :: "atom list" where "row0 = [AInt 0, AInt 6, AStr ''my dog'']"

definition s_begin :: state where
  "s_begin = \<lparr>conv_hist_for_pe = [\<lparr>speaker = USER, utterance = utt0,
                                   mentions = None, pems = None\<rparr>],
              ment2ent = Map.empty, heap = heap0\<rparr>"

definition s_mid :: state where
  "s_mid = \<lparr>conv_hist_for_pe = [\<lparr>speaker = USER, utterance = utt0,
                                 mentions = Some [AStr ''Rex''], pems = None\<rparr>],
            ment2ent = [AStr ''Rex'' \<mapsto> AStr ''Rex_(dog)''], heap = heap0\<rparr>"

text \<open>Collaborators whose preprocessor returns no item for the target mention.\<close>

definition M1 :: "(unit, unit, unit, int) collab" where
  "M1 = M0\<lparr>get_input_of_pe_linking := (\<lambda>t. Inr [])\<rparr>"

text \<open>Collaborators whose postprocessor accepts an antecedent that was never linked.\<close>

definition M3 :: "(unit, unit, unit, int) collab" where
  "M3 = M0\<lparr>get_results := (\<lambda>i h th sc.
             Inr [[(''personal_entity_mention'', AStr ''my dog''), (''mention'', AStr ''Fido'')]])\<rparr>"


text \<open>An instance that still holds the history and the map of the sample call, and a
  conversation with no turn.\<close>

definition s_stale :: state where
  "s_stale = \<lparr>conv_hist_for_pe = conv_hist_for_pe s0', ment2ent = ment2ent s0', heap = [OList []]\<rparr>"

text \<open>A conversation with two USER turns around a SYSTEM turn; a disambiguation that links
  two mentions in the first USER utterance and the first of them twice, to two entities, in
  the second; and an instance that holds a map from an earlier call.\<close>

definition heap5 :: "obj list" where
  "heap5 = [OList [Ref 1, Ref 2, Ref 3],
            ODict [(k_speaker, USER), (k_utterance, Atom (AStr ''my dog Rex''))],
            ODict [(k_speaker, SYSTEM), (k_utterance, Atom (AStr ''ok''))],
            ODict [(k_speaker, USER), (k_utterance, Atom (AStr ''Rex again''))]]"

definition M5 :: "(unit, unit, unit, int) collab" where
  "M5 = M0\<lparr>generate_response := (\<lambda>text spans.
             if text = Atom (AStr ''my dog Rex'')
             then Inr [[AInt 7, AInt 3, AStr ''Rex'', AStr ''Rex_(dog)''],
                       [AInt 0, AInt 3, AStr ''Ann'', AStr ''Ann_(name)'']]
             else Inr [[AInt 0, AInt 3, AStr ''Rex'', AStr ''Rex_(film)''],
                       [AInt 0, AInt 3, AStr ''Rex'', AStr ''Rex_(band)'']])\<rparr>"

definition s5 :: state where
  "s5 = \<lparr>conv_hist_for_pe = [], ment2ent = [AStr ''Bob'' \<mapsto> AStr ''Bob_(old)''], heap = heap5\<rparr>"

text \<open>An utterance in which the same personal mention occurs twice, with a detector that
  reports both occurrences.\<close>

definition utt6 :: pyval where "utt6 = Atom (AStr ''my dog likes what my dog eats'')"

definition M6 :: "(unit, unit, unit, int) collab" where
  "M6 = M0\<lparr>pem_detector := (\<lambda>utt. Inr [[AInt 0, AInt 6, AStr ''my dog''],
                                        [AInt 18, AInt 6, AStr ''my dog'']])\<rparr>"

definition s_dup :: state where
  "s_dup = \<lparr>conv_hist_for_pe = [\<lparr>speaker = USER, utterance = utt6,
                                 mentions = Some [AStr ''Rex''], pems = None\<rparr>],
            ment2ent = [AStr ''Rex'' \<mapsto> AStr ''Rex_(dog)''], heap = heap0\<rparr>"

section \<open>Laws of the computations\<close>

lemma bindE_Inr:
  "(bindE m f s = (Inr y, s')) = (\<exists>x s1. m s = (Inr x, s1) \<and> f x s1 = (Inr y, s'))"
  by (auto simp: bindE_def split: prod.splits sum.splits)

lemma bindE_Inl: "(bindE m f s = (Inl e, s')) =
   (m s = (Inl e, s') \<or> (\<exists>x s1. m s = (Inr x, s1) \<and> f x s1 = (Inl e, s')))"
  by (auto simp: bindE_def split: prod.splits sum.splits)

lemma steps_bindE:
  assumes tr: "\<And>a b c. R a b \<Longrightarrow> R b c \<Longrightarrow> R a c"
    and m: "steps R m" and f: "\<And>x. steps R (f x)"
  shows "steps R (bindE m f)"
  unfolding steps_def
proof
  fix s
  obtain r s1 where ms: "m s = (r, s1)" by (cases "m s")
  have h1: "R s s1" using m ms unfolding steps_def by (metis snd_conv)
  show "R s (snd (bindE m f s))"
  proof (cases r)
    case (Inl e)
    then show ?thesis using ms h1 by (simp add: bindE_def)
  next
    case (Inr x)
    have "R s1 (snd (f x s1))" using f unfolding steps_def by blast
    then show ?thesis using Inr ms tr[OF h1] by (simp add: bindE_def)
  qed
qed

lemma steps_returnE: "(\<And>s. R s s) \<Longrightarrow> steps R (returnE x)"
  by (simp add: steps_def returnE_def)

lemma steps_raiseE: "(\<And>s. R s s) \<Longrightarrow> steps R (raiseE x)"
  by (simp add: steps_def raiseE_def)

lemma steps_liftE: "(\<And>s. R s s) \<Longrightarrow> steps R (liftE x)"
  by (simp add: steps_def liftE_def)

lemma steps_call: "(\<And>s. R s s) \<Longrightarrow> steps R (call x)"
  by (cases x) (simp_all add: call_def steps_returnE steps_raiseE)

lemma steps_assertE: "(\<And>s. R s s) \<Longrightarrow> steps R (assertE b m)"
  by (simp add: assertE_def steps_returnE steps_raiseE)

lemma steps_call_reader: "(\<And>s. R s s) \<Longrightarrow> steps R (\<lambda>s. call (g s) s)"
  using steps_call[of R] unfolding steps_def by blast

lemma steps_liftE_reader: "(\<And>s. R s s) \<Longrightarrow> steps R (\<lambda>s. liftE (g s) s)"
  by (simp add: steps_def liftE_def)

lemma steps_case_prod3:
  "(\<And>a b c. steps R (f a b c)) \<Longrightarrow> steps R (case x of (a, b, c) \<Rightarrow> f a b c)"
  by (simp add: split_def)

lemma stepsD: "steps R p \<Longrightarrow> p s = (r, s') \<Longrightarrow> R s s'"
  unfolding steps_def by (metis snd_conv)

subsection \<open>Entity linking and personal-entity linking leave the store alone\<close>

lemma same_heap_refl: "same_heap s s"
  by (simp add: same_heap_def)

lemma same_heap_trans: "same_heap a b \<Longrightarrow> same_heap b c \<Longrightarrow> same_heap a c"
  by (simp add: same_heap_def)

lemma same_heap_set_last: "steps same_heap (set_last u)"
  by (simp add: steps_def set_last_def same_heap_def)

lemma same_heap_bindE:
  "steps same_heap m \<Longrightarrow> (\<And>x. steps same_heap (f x)) \<Longrightarrow> steps same_heap (bindE m f)"
  by (rule steps_bindE[where R = same_heap]) (auto simp: same_heap_def)

lemmas same_heap_intros =
  same_heap_bindE
  steps_returnE[of same_heap, OF same_heap_refl]
  steps_raiseE[of same_heap, OF same_heap_refl]
  steps_liftE[of same_heap, OF same_heap_refl]
  steps_call[of same_heap, OF same_heap_refl]
  steps_assertE[of same_heap, OF same_heap_refl]
  steps_call_reader[of same_heap, OF same_heap_refl]
  steps_liftE_reader[of same_heap, OF same_heap_refl]
  steps_case_prod3[of same_heap]
  same_heap_set_last

lemma same_heap_ed: "steps same_heap (ed M t sp)"
  unfolding ed_def by (intro same_heap_intros)

lemma same_heap_el: "steps same_heap (el M utt)"
  unfolding el_def
  apply (intro same_heap_intros same_heap_ed)
  apply (simp add: steps_def same_heap_def)
  done

lemma same_heap_pe_target: "steps same_heap (pe_target M row outs)"
  unfolding pe_target_def by (intro same_heap_intros)

lemma same_heap_pe_targets: "steps same_heap (pe_targets M rows outs)"
  by (induction rows arbitrary: outs) (auto intro!: same_heap_intros same_heap_pe_target)

lemma same_heap_pe: "steps same_heap (pe M utt)"
  unfolding pe_def by (intro same_heap_intros same_heap_pe_targets)

lemma el_heap: "el M utt s = (r, s') \<Longrightarrow> heap s' = heap s"
  using stepsD[OF same_heap_el] by (simp add: same_heap_def)

lemma pe_heap: "pe M utt s = (r, s') \<Longrightarrow> heap s' = heap s"
  using stepsD[OF same_heap_pe] by (simp add: same_heap_def)

subsection \<open>Validation\<close>

lemma check_turn_Inr: "(check_turn h t = Inr ()) = valid_turn h t"
  by (auto simp: check_turn_def valid_turn_def is_dict_def dict_items_def getitem_def bindR_def
      split: pyval.splits option.splits obj.splits)


lemma check_turns_Inr: "(check_turns h ts = Inr ()) = list_all (valid_turn h) ts"
proof (induction ts)
  case Nil
  then show ?case by simp
next
  case (Cons t ts)
  show ?case
  proof (cases "check_turn h t")
    case (Inl e)
    then have "\<not> valid_turn h t" using check_turn_Inr[of h t] by auto
    then show ?thesis using Inl by (simp add: bindR_def)
  next
    case (Inr u)
    then have "valid_turn h t" using check_turn_Inr[of h t] by simp
    then show ?thesis using Inr Cons by (simp add: bindR_def)
  qed
qed


lemma error_check_Inr: "(error_check h conv = Inr ()) = valid_conv h conv"
  by (auto simp: error_check_def valid_conv_def is_list_def list_items_def check_turns_Inr
      split: pyval.splits option.splits obj.splits)


subsection \<open>Allocation and the reads of a turn\<close>

lemma lookup_append: "a < length h \<Longrightarrow> lookup (h @ ext) a = lookup h a"
  by (simp add: lookup_def nth_append)

lemma lookup_Some_less: "lookup h a = Some ob \<Longrightarrow> a < length h"
  by (simp add: lookup_def split: if_splits)

lemma getitem_Inr:
  "(getitem h v k = Inr x) =
     (\<exists>a kvs. v = Ref a \<and> lookup h a = Some (ODict kvs) \<and> map_of kvs k = Some x)"
  by (auto simp: getitem_def split: pyval.splits option.splits obj.splits)

lemma getitem_append: "getitem h v k = Inr x \<Longrightarrow> getitem (h @ ext) v k = Inr x"
  unfolding getitem_Inr using lookup_append lookup_Some_less by metis

lemma alloc_app: "alloc ob s = (Inr (Ref (length (heap s))), s\<lparr>heap := heap s @ [ob]\<rparr>)"
  by (simp add: alloc_def)

lemma mapE_alloc:
  "mapE (\<lambda>r. alloc (f r)) rows s =
     (Inr (map (\<lambda>i. Ref (length (heap s) + i)) [0 ..< length rows]),
      s\<lparr>heap := heap s @ map f rows\<rparr>)"
proof (induction rows arbitrary: s)
  case Nil
  then show ?case by (simp add: returnE_def)
next
  case (Cons r rows)
  have m: "map (\<lambda>i. Ref (length (heap s) + i)) [0 ..< Suc (length rows)] =
        Ref (length (heap s)) # map (\<lambda>i. Ref (Suc (length (heap s)) + i)) [0 ..< length rows]"
    by (simp add: map_upt_Suc del: upt_Suc)
  define s1 where "s1 = s\<lparr>heap := heap s @ [f r]\<rparr>"
  have a: "alloc (f r) s = (Inr (Ref (length (heap s))), s1)"
    by (simp add: alloc_app s1_def)
  have ih: "mapE (\<lambda>r. alloc (f r)) rows s1 =
     (Inr (map (\<lambda>i. Ref (length (heap s1) + i)) [0 ..< length rows]),
      s1\<lparr>heap := heap s1 @ map f rows\<rparr>)"
    by (rule Cons.IH)
  have "mapE (\<lambda>r. alloc (f r)) (r # rows) s =
     (Inr (Ref (length (heap s)) # map (\<lambda>i. Ref (length (heap s1) + i)) [0 ..< length rows]),
      s1\<lparr>heap := heap s1 @ map f rows\<rparr>)"
    by (simp add: bindE_def a ih returnE_def del: upt_Suc)
  then show ?case using m by (simp add: s1_def del: upt_Suc)
qed

lemma alloc_rows_closed:
  "alloc_rows rows s =
     (Inr (Ref (length (heap s) + length rows)),
      s\<lparr>heap := heap s @ map (\<lambda>r. OList (map Atom r)) rows @
                [OList (map (\<lambda>i. Ref (length (heap s) + i)) [0 ..< length rows])]\<rparr>)"
  by (simp add: alloc_rows_def bindE_def mapE_alloc alloc_app)

lemma heap_begin_turn: "heap (begin_turn sp utt s) = heap s @ [new_record sp utt]"
  by (simp add: begin_turn_def)

subsection \<open>The outcomes of one turn\<close>

lemma annotate_turn_early_utt:
  "getitem (heap s) turn k_utterance = Inl e \<Longrightarrow> annotate_turn M turn ret s = (Inl e, s)"
  by (simp add: annotate_turn_def bindE_def read_heap_def)

lemma annotate_turn_early_sp:
  "getitem (heap s) turn k_utterance = Inr utt \<Longrightarrow> getitem (heap s) turn k_speaker = Inl e
    \<Longrightarrow> annotate_turn M turn ret s = (Inl e, s)"
  by (simp add: annotate_turn_def bindE_def read_heap_def)

lemma annotate_turn_early_assert:
  "getitem (heap s) turn k_utterance = Inr utt \<Longrightarrow> getitem (heap s) turn k_speaker = Inr sp
    \<Longrightarrow> sp \<noteq> USER \<Longrightarrow> sp \<noteq> SYSTEM
    \<Longrightarrow> annotate_turn M turn ret s = (Inl (AssertionError (SpeakerMessage sp)), s)"
  by (simp add: annotate_turn_def bindE_def read_heap_def assertE_def raiseE_def)

lemma annotate_turn_SYSTEM:
  assumes "getitem (heap s) turn k_utterance = Inr utt"
    and "getitem (heap s) turn k_speaker = Inr SYSTEM"
  shows "annotate_turn M turn ret s =
     (Inr (ret @ [Ref (length (heap s))]), begin_turn SYSTEM utt s)"
  using assms getitem_append[OF assms(2), of "[new_record SYSTEM utt]"]
  by (simp add: annotate_turn_def bindE_def read_heap_def assertE_def returnE_def alloc_app
      begin_turn_def new_record_def new_hist_def)

lemma annotate_turn_USER:
  assumes "getitem (heap s) turn k_utterance = Inr utt"
    and "getitem (heap s) turn k_speaker = Inr USER"
  shows "annotate_turn M turn ret s =
     bindE (el M utt) (\<lambda>el_results.
       bindE (pe M utt) (\<lambda>pe_results.
       bindE (alloc_rows (el_results @ pe_results)) (\<lambda>anns.
       bindE (setitem (Ref (length (heap s))) k_annotations anns) (\<lambda>_.
       returnE (ret @ [Ref (length (heap s))]))))) (begin_turn USER utt s)"
  using assms getitem_append[OF assms(2), of "[new_record USER utt]"]
  by (simp add: annotate_turn_def bindE_def read_heap_def assertE_def returnE_def alloc_app
      begin_turn_def new_record_def new_hist_def liftE_def index_def)

lemma annotate_turn_el_fail:
  assumes "getitem (heap s) turn k_utterance = Inr utt"
    and "getitem (heap s) turn k_speaker = Inr USER"
    and "el M utt (begin_turn USER utt s) = (Inl e, s2)"
  shows "annotate_turn M turn ret s = (Inl e, s2)"
  by (simp add: annotate_turn_USER[OF assms(1,2)] bindE_def assms(3))

lemma annotate_turn_pe_fail:
  assumes "getitem (heap s) turn k_utterance = Inr utt"
    and "getitem (heap s) turn k_speaker = Inr USER"
    and "el M utt (begin_turn USER utt s) = (Inr elr, s2)"
    and "pe M utt s2 = (Inl e, s3)"
  shows "annotate_turn M turn ret s = (Inl e, s3)"
  by (simp add: annotate_turn_USER[OF assms(1,2)] bindE_def assms(3,4))

lemma annotate_turn_user_ok:
  assumes "getitem (heap s) turn k_utterance = Inr utt"
    and "getitem (heap s) turn k_speaker = Inr USER"
    and "el M utt (begin_turn USER utt s) = (Inr elr, s2)"
    and "pe M utt s2 = (Inr per, s3)"
  shows "annotate_turn M turn ret s =
     (Inr (ret @ [Ref (length (heap s))]), finish_turn (heap s) utt (elr @ per) s3)"
proof -
  have h2: "heap s2 = heap s @ [new_record USER utt]"
    using el_heap[OF assms(3)] by (simp add: heap_begin_turn)
  have h3: "heap s3 = heap s @ [new_record USER utt]"
    using pe_heap[OF assms(4)] h2 by simp
  show ?thesis
    by (simp add: annotate_turn_USER[OF assms(1,2)] bindE_def assms(3,4) alloc_rows_closed
        setitem_def lookup_def h3 nth_append new_record_def returnE_def finish_turn_def
        list_update_append)
qed

lemma getitem_Inl_invalid:
  "getitem h turn k_utterance = Inl e \<or> getitem h turn k_speaker = Inl e
    \<Longrightarrow> \<not> valid_turn h turn"
  by (auto simp: valid_turn_def getitem_def is_dict_def dict_items_def
      map_of_eq_None_iff split: pyval.splits option.splits obj.splits)

lemma getitem_speaker_invalid:
  "getitem h turn k_speaker = Inr sp \<Longrightarrow> sp \<noteq> USER \<Longrightarrow> sp \<noteq> SYSTEM \<Longrightarrow> \<not> valid_turn h turn"
  by (auto simp: valid_turn_def getitem_def is_dict_def dict_items_def
      split: pyval.splits option.splits obj.splits)

lemma annotate_turn_outcomes:
  obtains
    (early) e where "annotate_turn M turn ret s = (Inl e, s)" and "\<not> valid_turn (heap s) turn"
  | (system) utt where "getitem (heap s) turn k_utterance = Inr utt"
      and "getitem (heap s) turn k_speaker = Inr SYSTEM"
      and "annotate_turn M turn ret s =
             (Inr (ret @ [Ref (length (heap s))]), begin_turn SYSTEM utt s)"
  | (el_fail) utt e s2 where "getitem (heap s) turn k_utterance = Inr utt"
      and "getitem (heap s) turn k_speaker = Inr USER"
      and "el M utt (begin_turn USER utt s) = (Inl e, s2)"
      and "annotate_turn M turn ret s = (Inl e, s2)"
  | (pe_fail) utt elr s2 e s3 where "getitem (heap s) turn k_utterance = Inr utt"
      and "getitem (heap s) turn k_speaker = Inr USER"
      and "el M utt (begin_turn USER utt s) = (Inr elr, s2)"
      and "pe M utt s2 = (Inl e, s3)"
      and "annotate_turn M turn ret s = (Inl e, s3)"
  | (user) utt elr s2 per s3 where "getitem (heap s) turn k_utterance = Inr utt"
      and "getitem (heap s) turn k_speaker = Inr USER"
      and "el M utt (begin_turn USER utt s) = (Inr elr, s2)"
      and "pe M utt s2 = (Inr per, s3)"
      and "annotate_turn M turn ret s =
             (Inr (ret @ [Ref (length (heap s))]), finish_turn (heap s) utt (elr @ per) s3)"
proof (cases "getitem (heap s) turn k_utterance")
  case (Inl e)
  then show ?thesis
    using early annotate_turn_early_utt[OF Inl] getitem_Inl_invalid[of "heap s" turn e] by blast
next
  case utt: (Inr utt)
  show ?thesis
  proof (cases "getitem (heap s) turn k_speaker")
    case (Inl e)
    then show ?thesis
      using early annotate_turn_early_sp[OF utt Inl] getitem_Inl_invalid[of "heap s" turn e]
      by blast
  next
    case sp: (Inr sp)
    consider (u) "sp = USER" | (sy) "sp = SYSTEM" | (bad) "sp \<noteq> USER" "sp \<noteq> SYSTEM" by blast
    then show ?thesis
    proof cases
      case bad
      then show ?thesis
        using early annotate_turn_early_assert[OF utt sp bad] getitem_speaker_invalid[OF sp bad]
        by blast
    next
      case sy
      then show ?thesis using system[OF utt] sp annotate_turn_SYSTEM[OF utt] by blast
    next
      case u
      note spu = sp[unfolded u]
      obtain r2 s2 where e: "el M utt (begin_turn USER utt s) = (r2, s2)"
        by (cases "el M utt (begin_turn USER utt s)")
      show ?thesis
      proof (cases r2)
        case (Inl e2)
        then show ?thesis using el_fail[OF utt spu] annotate_turn_el_fail[OF utt spu] e by blast
      next
        case elr: (Inr elr)
        obtain r3 s3 where p: "pe M utt s2 = (r3, s3)" by (cases "pe M utt s2")
        show ?thesis
        proof (cases r3)
          case (Inl e3)
          then show ?thesis
            using pe_fail[OF utt spu] annotate_turn_pe_fail[OF utt spu] e elr p by blast
        next
          case (Inr per)
          then show ?thesis
            using user[OF utt spu] annotate_turn_user_ok[OF utt spu] e elr p by blast
        qed
      qed
    qed
  qed
qed

subsection \<open>The store only grows\<close>

lemma lookup_append_Some: "lookup h a = Some ob \<Longrightarrow> lookup (h @ ext) a = Some ob"
  using lookup_append lookup_Some_less by metis

lemma list_items_append: "is_list h v \<Longrightarrow> list_items (h @ ext) v = list_items h v"
  by (auto simp: is_list_def list_items_def lookup_append_Some
      split: pyval.splits option.splits obj.splits)

lemma dict_items_append: "is_dict h v \<Longrightarrow> dict_items (h @ ext) v = dict_items h v"
  by (auto simp: is_dict_def dict_items_def lookup_append_Some
      split: pyval.splits option.splits obj.splits)

lemma is_dict_append: "is_dict h v \<Longrightarrow> is_dict (h @ ext) v"
  by (auto simp: is_dict_def lookup_append_Some
      split: pyval.splits option.splits obj.splits)

lemma valid_turn_append: "valid_turn h v \<Longrightarrow> valid_turn (h @ ext) v"
  by (simp add: valid_turn_def is_dict_append dict_items_append)

lemma annotate_turn_heap:
  assumes "annotate_turn M turn ret s = (r, s')"
  shows "\<exists>ext. heap s' = heap s @ ext \<and>
           (\<forall>ret'. r = Inr ret' \<longrightarrow> ret' = ret @ [Ref (length (heap s))] \<and> ext \<noteq> [])"
proof (cases rule: annotate_turn_outcomes[of M turn ret s])
  case (early e)
  then show ?thesis using assms by simp
next
  case (system utt)
  then show ?thesis using assms by (auto simp: heap_begin_turn)
next
  case (el_fail utt e s2)
  then show ?thesis using assms el_heap[OF el_fail(3)] by (auto simp: heap_begin_turn)
next
  case (pe_fail utt elr s2 e s3)
  then show ?thesis using assms el_heap[OF pe_fail(3)] pe_heap[OF pe_fail(4)]
    by (auto simp: heap_begin_turn)
next
  case (user utt elr s2 per s3)
  then show ?thesis using assms by (auto simp: finish_turn_def)
qed

lemma annotate_loop_heap:
  "annotate_loop M turns ret s = (r, s') \<Longrightarrow>
     \<exists>ext. heap s' = heap s @ ext \<and>
       (\<forall>ret'. r = Inr ret' \<longrightarrow>
          (\<exists>new. ret' = ret @ new \<and> length new = length turns \<and>
             set new \<subseteq> Ref ` {length (heap s) ..< length (heap s')}))"
proof (induction turns arbitrary: ret s r s')
  case Nil
  then show ?case by (auto simp: returnE_def)
next
  case (Cons t ts)
  obtain r1 s1 where t1: "annotate_turn M t ret s = (r1, s1)"
    by (cases "annotate_turn M t ret s")
  from annotate_turn_heap[OF t1] obtain e1 where e1: "heap s1 = heap s @ e1"
    and r1: "\<And>ret'. r1 = Inr ret' \<Longrightarrow> ret' = ret @ [Ref (length (heap s))] \<and> e1 \<noteq> []"
    by blast
  show ?case
  proof (cases r1)
    case (Inl e)
    then have "annotate_loop M (t # ts) ret s = (Inl e, s1)" using t1 by (simp add: bindE_def)
    then show ?thesis using Cons.prems e1 by auto
  next
    case (Inr ret1)
    then have l: "annotate_loop M ts ret1 s1 = (r, s')" using t1 Cons.prems by (simp add: bindE_def)
    from Cons.IH[OF l] obtain e2 where e2: "heap s' = heap s1 @ e2"
      and r2: "\<And>ret'. r = Inr ret' \<Longrightarrow> \<exists>new. ret' = ret1 @ new \<and> length new = length ts \<and>
             set new \<subseteq> Ref ` {length (heap s1) ..< length (heap s')}"
      by blast
    have ret1: "ret1 = ret @ [Ref (length (heap s))]" and ne: "e1 \<noteq> []" using r1[OF Inr] by auto
    have "heap s' = heap s @ (e1 @ e2)" using e1 e2 by simp
    moreover have "\<exists>new. ret' = ret @ new \<and> length new = length (t # ts) \<and>
             set new \<subseteq> Ref ` {length (heap s) ..< length (heap s')}" if "r = Inr ret'" for ret'
    proof -
      from r2[OF that] obtain new where n: "ret' = ret1 @ new" "length new = length ts"
        "set new \<subseteq> Ref ` {length (heap s1) ..< length (heap s')}" by blast
      have "length (heap s) < length (heap s1)" using e1 ne by (cases e1) auto
      moreover have "length (heap s1) \<le> length (heap s')" using e2 by simp
      ultimately have "set (Ref (length (heap s)) # new) \<subseteq> Ref ` {length (heap s) ..< length (heap s')}"
        using n(3) by auto
      then show ?thesis using n ret1 by (intro exI[of _ "Ref (length (heap s)) # new"]) auto
    qed
    ultimately show ?thesis by blast
  qed
qed

lemma annotate_closed:
  "annotate M conv s =
     (case error_check (heap s) conv of
        Inl e \<Rightarrow> (Inl e, s)
      | Inr _ \<Rightarrow> annotate_loop M (list_items (heap s) conv) []
                  (s\<lparr>conv_hist_for_pe := [], ment2ent := Map.empty\<rparr>))"
proof (cases "error_check (heap s) conv")
  case (Inl e)
  then show ?thesis by (simp add: annotate_def bindE_def read_heap_def)
next
  case (Inr u)
  then have "valid_conv (heap s) conv" using error_check_Inr[of "heap s" conv] by simp
  then have "iter (heap s) conv = Inr (list_items (heap s) conv)"
    by (auto simp: valid_conv_def is_list_def iter_def list_items_def
        split: pyval.splits option.splits obj.splits)
  then show ?thesis using Inr by (simp add: annotate_def bindE_def read_heap_def)
qed

subsection \<open>The sample call, evaluated\<close>

lemmas run_defs = annotate_def annotate_turn_def el_def pe_def pe_target_def ed_def alloc_rows_def
     bindE_def returnE_def raiseE_def liftE_def call_def assertE_def bindR_def read_heap_def
     alloc_def setitem_def set_last_def index_def unpack3_def getkey_def getmap_def getitem_def
     iter_def lookup_def error_check_def check_turn_def

lemma run0: "annotate M0 (Ref 0) s0 = (Inr [Ref 3, Ref 7], s0')"
  by (simp add: run_defs M0_def heap0_def s0_def s0'_def heap0'_def)

lemma valid0: "valid_conv (heap s0) (Ref 0)"
  by (simp add: valid_conv_def valid_turn_def is_list_def is_dict_def list_items_def
      dict_items_def lookup_def s0_def heap0_def)

subsection \<open>What a turn leaves in the store\<close>

lemma list_items_Ref_append:
  "a < length h \<Longrightarrow> list_items (h @ ext) (Ref a) = list_items h (Ref a)"
  by (simp add: list_items_def lookup_append)

lemma dict_items_Ref_append:
  "a < length h \<Longrightarrow> dict_items (h @ ext) (Ref a) = dict_items h (Ref a)"
  by (simp add: dict_items_def lookup_append)

lemma is_dict_Ref_append:
  "a < length h \<Longrightarrow> is_dict (h @ ext) (Ref a) = is_dict h (Ref a)"
  by (simp add: is_dict_def lookup_append)

lemma lookup_at_length: "lookup (h @ ob # rest) (length h) = Some ob"
  by (simp add: lookup_def)

lemma lookup_middle:
  "i < length xs \<Longrightarrow> lookup (h @ ob # xs @ rest) (length h + 1 + i) = Some (xs ! i)"
  by (simp add: lookup_def nth_append)

lemma lookup_after:
  "lookup (h @ ob # xs @ l # rest) (length h + 1 + length xs) = Some l"
  by (simp add: lookup_def nth_append)

lemma finish_turn_record:
  "dict_items (heap (finish_turn h utt rows s) @ ext) (Ref (length h)) =
     [(k_speaker, USER), (k_utterance, utt), (k_annotations, Ref (length h + 1 + length rows))]"
  by (simp add: finish_turn_def dict_items_def lookup_at_length)

lemma finish_turn_rows:
  "read_rows (heap (finish_turn h utt rows s) @ ext) (Ref (length h + 1 + length rows)) =
     map (map Atom) rows"
proof -
  let ?xs = "map (\<lambda>r. OList (map Atom r)) rows"
  let ?l = "OList (map (\<lambda>i. Ref (length h + 1 + i)) [0 ..< length rows])"
  let ?d = "ODict [(k_speaker, USER), (k_utterance, utt),
                   (k_annotations, Ref (length h + 1 + length rows))]"
  have hp: "heap (finish_turn h utt rows s) @ ext = h @ ?d # ?xs @ ?l # ext"
    by (simp add: finish_turn_def)
  have a: "list_items (h @ ?d # ?xs @ ?l # ext) (Ref (length h + 1 + length rows)) =
        map (\<lambda>i. Ref (length h + 1 + i)) [0 ..< length rows]"
    using lookup_after[of h ?d ?xs ?l ext] by (simp add: list_items_def)
  have b: "list_items (h @ ?d # ?xs @ ?l # ext) (Ref (length h + 1 + i)) = map Atom (rows ! i)"
    if "i < length rows" for i
    using lookup_middle[of i ?xs h ?d "?l # ext"] that by (simp add: list_items_def)
  have "map (list_items (h @ ?d # ?xs @ ?l # ext)) (map (\<lambda>i. Ref (length h + 1 + i)) [0 ..< length rows])
        = map (\<lambda>i. map Atom (rows ! i)) [0 ..< length rows]"
    using b by (simp del: upt_Suc)
  also have "\<dots> = map (map Atom) (map (\<lambda>i. rows ! i) [0 ..< length rows])"
    by (simp del: upt_Suc)
  also have "\<dots> = map (map Atom) rows" by (simp only: map_nth)
  finally show ?thesis unfolding read_rows_def hp a .
qed

lemma begin_turn_record:
  "dict_items (heap (begin_turn sp utt s) @ ext) (Ref (length (heap s))) =
     [(k_speaker, sp), (k_utterance, utt)]"
  by (simp add: begin_turn_def new_record_def dict_items_def lookup_at_length)

lemma bindE_assoc: "bindE (bindE m f) g = bindE m (\<lambda>x. bindE (f x) g)"
  by (auto simp: bindE_def fun_eq_iff split: prod.splits sum.splits)

lemma annotate_loop_append:
  "annotate_loop M (xs @ ys) ret = bindE (annotate_loop M xs ret) (\<lambda>r. annotate_loop M ys r)"
proof (induction xs arbitrary: ret)
  case Nil
  show ?case by (simp add: bindE_def returnE_def)
next
  case (Cons x xs)
  have "annotate_loop M (xs @ ys) = (\<lambda>r. bindE (annotate_loop M xs r) (annotate_loop M ys))"
    by (rule ext) (rule Cons.IH)
  then show ?case
    by (simp add: bindE_assoc)
qed

lemma annotate_turn_Inr:
  assumes "annotate_turn M turn ret s = (Inr ret', s')"
  obtains
    (system) utt where "getitem (heap s) turn k_utterance = Inr utt"
      and "getitem (heap s) turn k_speaker = Inr SYSTEM"
      and "ret' = ret @ [Ref (length (heap s))]" and "s' = begin_turn SYSTEM utt s"
  | (user) utt elr s2 per s3 where "getitem (heap s) turn k_utterance = Inr utt"
      and "getitem (heap s) turn k_speaker = Inr USER"
      and "el M utt (begin_turn USER utt s) = (Inr elr, s2)"
      and "pe M utt s2 = (Inr per, s3)"
      and "ret' = ret @ [Ref (length (heap s))]"
      and "s' = finish_turn (heap s) utt (elr @ per) s3"
  using assms by (cases rule: annotate_turn_outcomes[of M turn ret s]) auto

lemma getitem_dict_items: "getitem h t k = Inr x \<Longrightarrow> map_of (dict_items h t) k = Some x"
  by (auto simp: getitem_Inr dict_items_def)

lemma is_dict_at_length: "is_dict (h @ ODict kvs # rest) (Ref (length h))"
  by (simp add: is_dict_def lookup_at_length)

lemma carries_append: "carries h t h' r \<Longrightarrow> carries h t (h' @ ext) r"
  by (simp add: carries_def is_dict_append dict_items_append)

lemma annotate_turn_carries:
  assumes "annotate_turn M turn ret s = (Inr ret', s')"
  shows "carries (heap s) turn (heap s') (Ref (length (heap s)))"
  using assms
proof (cases rule: annotate_turn_Inr)
  case (system utt)
  have "dict_items (heap s') (Ref (length (heap s))) = [(k_speaker, SYSTEM), (k_utterance, utt)]"
    using begin_turn_record[of SYSTEM utt s "[]"] system(4) by simp
  moreover have "is_dict (heap s') (Ref (length (heap s)))"
    using system(4) by (simp add: begin_turn_def new_record_def is_dict_at_length)
  ultimately show ?thesis
    using getitem_dict_items[OF system(1)] getitem_dict_items[OF system(2)]
    by (simp add: carries_def)
next
  case (user utt elr s2 per s3)
  have "dict_items (heap s') (Ref (length (heap s))) =
     [(k_speaker, USER), (k_utterance, utt),
      (k_annotations, Ref (length (heap s) + 1 + length (elr @ per)))]"
    using finish_turn_record[of "heap s" utt "elr @ per" s3 "[]"] user(6) by simp
  moreover have "is_dict (heap s') (Ref (length (heap s)))"
    using user(6) by (simp add: finish_turn_def is_dict_at_length)
  ultimately show ?thesis
    using getitem_dict_items[OF user(1)] getitem_dict_items[OF user(2)]
    by (simp add: carries_def)
qed

lemma annotate_loop_carries:
  "annotate_loop M turns ret s = (Inr ret', s') \<Longrightarrow> heap s = h0 @ e0 \<Longrightarrow>
   list_all (valid_turn h0) turns \<Longrightarrow>
   \<exists>new. ret' = ret @ new \<and> list_all2 (\<lambda>t r. carries h0 t (heap s') r) turns new"
proof (induction turns arbitrary: ret s e0)
  case Nil
  then show ?case by (simp add: returnE_def)
next
  case (Cons t ts)
  from Cons.prems(1) obtain ret1 s1 where t1: "annotate_turn M t ret s = (Inr ret1, s1)"
    and l: "annotate_loop M ts ret1 s1 = (Inr ret', s')"
    by (auto simp: bindE_Inr)
  from annotate_turn_heap[OF t1] obtain e1 where e1: "heap s1 = heap s @ e1"
    and r1: "ret1 = ret @ [Ref (length (heap s))]" by auto
  have h1: "heap s1 = h0 @ (e0 @ e1)" using e1 Cons.prems(2) by simp
  from Cons.IH[OF l h1] Cons.prems(3) obtain new where
    n: "ret' = ret1 @ new" "list_all2 (\<lambda>t r. carries h0 t (heap s') r) ts new" by auto
  from annotate_loop_heap[OF l] obtain e2 where e2: "heap s' = heap s1 @ e2" by auto
  have vt: "valid_turn h0 t" using Cons.prems(3) by simp
  have d: "dict_items (heap s) t = dict_items h0 t"
    using vt Cons.prems(2) by (simp add: valid_turn_def dict_items_append)
  have "carries (heap s) t (heap s1) (Ref (length (heap s)))"
    by (rule annotate_turn_carries[OF t1])
  then have "carries h0 t (heap s1) (Ref (length (heap s)))"
    using d by (simp add: carries_def)
  then have "carries h0 t (heap s') (Ref (length (heap s)))"
    using e2 carries_append by simp
  then show ?case using n r1 by (intro exI[of _ "Ref (length (heap s)) # new"]) simp
qed

lemma annotate_loop_split:
  assumes "annotate_loop M turns ret s = (Inr ret', s')" and "i < length turns"
  shows "\<exists>ret_i s_i ret_b s_b. annotate_loop M (take i turns) ret s = (Inr ret_i, s_i) \<and>
           annotate_turn M (turns ! i) ret_i s_i = (Inr ret_b, s_b) \<and>
           annotate_loop M (drop (Suc i) turns) ret_b s_b = (Inr ret', s')"
proof -
  have "turns = take i turns @ (turns ! i # drop (Suc i) turns)"
    using assms(2) by (simp add: id_take_nth_drop)
  then have "annotate_loop M turns ret s =
      bindE (annotate_loop M (take i turns) ret)
        (\<lambda>r. annotate_loop M (turns ! i # drop (Suc i) turns) r) s"
    using annotate_loop_append[of M "take i turns" "turns ! i # drop (Suc i) turns" ret] by simp
  with assms(1) have "bindE (annotate_loop M (take i turns) ret)
        (\<lambda>r. annotate_loop M (turns ! i # drop (Suc i) turns) r) s = (Inr ret', s')"
    by simp
  then obtain ret_i s_i where a: "annotate_loop M (take i turns) ret s = (Inr ret_i, s_i)"
    and b: "annotate_loop M (turns ! i # drop (Suc i) turns) ret_i s_i = (Inr ret', s')"
    unfolding bindE_Inr by blast
  from b obtain ret_b s_b where "annotate_turn M (turns ! i) ret_i s_i = (Inr ret_b, s_b)"
    and "annotate_loop M (drop (Suc i) turns) ret_b s_b = (Inr ret', s')"
    unfolding annotate_loop.simps bindE_Inr by blast
  with a show ?thesis by blast
qed

subsection \<open>Which exceptions can be raised\<close>

lemma raises_bindE: "raises P m \<Longrightarrow> (\<And>x. raises P (f x)) \<Longrightarrow> raises P (bindE m f)"
  unfolding raises_def bindE_Inl by blast

lemma raises_returnE: "raises P (returnE x)"
  by (simp add: raises_def returnE_def)

lemma raises_raiseE: "P e \<Longrightarrow> raises P (raiseE e)"
  by (simp add: raises_def raiseE_def)

lemma raises_liftE: "(\<And>e. r = Inl e \<Longrightarrow> P e) \<Longrightarrow> raises P (liftE r)"
  by (simp add: raises_def liftE_def)

lemma raises_call: "(\<And>n. P (Propagated n)) \<Longrightarrow> raises P (call r)"
  by (cases r) (simp_all add: call_def raises_returnE raises_raiseE)

lemma raises_call_reader: "(\<And>n. P (Propagated n)) \<Longrightarrow> raises P (\<lambda>s. call (g s) s)"
  using raises_call[of P] unfolding raises_def by blast

lemma raises_liftE_reader: "(\<And>s e. g s = Inl e \<Longrightarrow> P e) \<Longrightarrow> raises P (\<lambda>s. liftE (g s) s)"
  by (simp add: raises_def liftE_def)

lemma raises_assertE: "P (AssertionError m) \<Longrightarrow> raises P (assertE b m)"
  by (simp add: assertE_def raises_returnE raises_raiseE)

lemma raises_set_last: "P IndexError \<Longrightarrow> raises P (set_last u)"
  by (auto simp: raises_def set_last_def split: if_splits)

lemma raises_case_prod3:
  "(\<And>a b c. raises P (f a b c)) \<Longrightarrow> raises P (case x of (a, b, c) \<Rightarrow> f a b c)"
  by (simp add: split_def)

lemma bindR_Inl: "(bindR r f = Inl e) = (r = Inl e \<or> (\<exists>x. r = Inr x \<and> f x = Inl e))"
  by (cases r) (simp_all add: bindR_def)

lemma bindR_Inr: "(bindR r f = Inr y) = (\<exists>x. r = Inr x \<and> f x = Inr y)"
  by (cases r) (simp_all add: bindR_def)

lemma index_Inl: "index xs i = Inl e \<Longrightarrow> e = IndexError"
  by (simp add: index_def split: if_splits)

lemma mapR_Inl: "(\<And>x e. f x = Inl e \<Longrightarrow> P e) \<Longrightarrow> mapR f xs = Inl e \<Longrightarrow> P e"
  by (induction xs arbitrary: e) (auto simp: bindR_Inl)

lemma dict_of_rows_Inl:
  "(\<And>r e. val r = Inl e \<Longrightarrow> e = IndexError) \<Longrightarrow> dict_of_rows val rs d = Inl e
     \<Longrightarrow> e = IndexError"
  by (induction rs arbitrary: d) (auto simp: bindR_Inl dest: index_Inl)

lemma unpack3_Inl: "unpack3 xs = Inl e \<Longrightarrow> e = ValueError"
  by (auto simp: unpack3_def split: list.splits)

lemma getkey_Inl: "getkey d k = Inl e \<Longrightarrow> e = KeyError (Atom (AStr k))"
  by (auto simp: getkey_def split: option.splits)

lemma getmap_Inl: "getmap m k = Inl e \<Longrightarrow> e = KeyError (Atom k)"
  by (auto simp: getmap_def split: option.splits)

lemma pe_entities_Inl:
  "pe_entities p2r m2e outs ret = Inl e \<Longrightarrow> e = IndexError \<or> (\<exists>k. e = KeyError k)"
  by (induction outs arbitrary: ret)
     (auto simp: bindR_Inl dest: index_Inl getkey_Inl getmap_Inl)

lemma pipeline_error_simps:
  "pipeline_error IndexError" "pipeline_error ValueError" "pipeline_error (KeyError k)"
  "pipeline_error (Propagated n)" "pipeline_error (AssertionError OneTargetMessage)"
  by (simp_all add: pipeline_error_def)

lemmas pipeline_error_intros =
  raises_bindE raises_returnE raises_raiseE raises_call raises_call_reader raises_assertE
  raises_set_last raises_case_prod3 pipeline_error_simps

lemma raises_ed: "raises pipeline_error (ed M t sp)"
  unfolding ed_def by (intro pipeline_error_intros)

lemma raises_el: "raises pipeline_error (el M utt)"
  unfolding el_def
  apply (intro pipeline_error_intros raises_ed raises_liftE)
     apply (erule mapR_Inl[rotated])
     apply (auto simp: bindR_Inl pipeline_error_simps dest!: index_Inl)[1]
    apply (erule mapR_Inl[rotated])
    apply (auto simp: pipeline_error_simps dest!: index_Inl)[1]
   apply (auto simp: pipeline_error_simps dest!: dict_of_rows_Inl[rotated] index_Inl)[1]
  apply (simp add: raises_def)
  done

lemma raises_pe_target: "raises pipeline_error (pe_target M row outs)"
  unfolding pe_target_def
  apply (intro pipeline_error_intros raises_liftE)
   apply (auto simp: pipeline_error_simps dest!: unpack3_Inl index_Inl)
  done

lemma raises_pe_targets: "raises pipeline_error (pe_targets M rows outs)"
  by (induction rows arbitrary: outs) (auto intro!: pipeline_error_intros raises_pe_target)

lemma raises_pe: "raises pipeline_error (pe M utt)"
  unfolding pe_def
  apply (intro pipeline_error_intros raises_pe_targets raises_liftE raises_liftE_reader)
   apply (auto simp: pipeline_error_simps dest!: dict_of_rows_Inl[rotated] pe_entities_Inl)
  done

lemma raisesD: "raises P p \<Longrightarrow> p s = (Inl e, s') \<Longrightarrow> P e"
  unfolding raises_def by blast

lemma annotate_turn_pipeline_error:
  assumes "valid_turn (heap s) turn" and "annotate_turn M turn ret s = (Inl e, s')"
  shows "pipeline_error e"
proof (cases rule: annotate_turn_outcomes[of M turn ret s])
  case (early e)
  then show ?thesis using assms by simp
next
  case (system utt)
  then show ?thesis using assms by simp
next
  case (el_fail utt e2 s2)
  then show ?thesis using assms raisesD[OF raises_el el_fail(3)] by simp
next
  case (pe_fail utt elr s2 e3 s3)
  then show ?thesis using assms raisesD[OF raises_pe pe_fail(4)] by simp
next
  case (user utt elr s2 per s3)
  then show ?thesis using assms by simp
qed

lemma annotate_loop_pipeline_error:
  "annotate_loop M turns ret s = (Inl e, s') \<Longrightarrow> list_all (valid_turn (heap s)) turns
     \<Longrightarrow> pipeline_error e"
proof (induction turns arbitrary: ret s)
  case Nil
  then show ?case by (simp add: returnE_def)
next
  case (Cons t ts)
  from Cons.prems(1) consider
    (a) "annotate_turn M t ret s = (Inl e, s')"
  | (b) ret1 s1 where "annotate_turn M t ret s = (Inr ret1, s1)"
      "annotate_loop M ts ret1 s1 = (Inl e, s')"
    by (auto simp: bindE_Inl)
  then show ?case
  proof cases
    case a
    then show ?thesis using annotate_turn_pipeline_error Cons.prems(2) by auto
  next
    case b
    from annotate_turn_heap[OF b(1)] obtain e1 where "heap s1 = heap s @ e1" by auto
    then have "list_all (valid_turn (heap s1)) ts"
      using Cons.prems(2) by (auto simp: list_all_iff valid_turn_append)
    then show ?thesis using Cons.IH[OF b(2)] by simp
  qed
qed

lemma run1: "fst (annotate M1 (Ref 0) s0) = Inl (AssertionError OneTargetMessage)"
  by (simp add: run_defs M1_def M0_def heap0_def s0_def)

lemma invalid1: "\<not> valid_conv (heap s0) (Ref 1)"
  by (simp add: valid_conv_def is_list_def lookup_def s0_def heap0_def)


subsection \<open>Successful runs of entity linking, taken apart\<close>

lemma index_Inr: "(index xs i = Inr x) = (i < length xs \<and> x = xs ! i)"
  by (auto simp: index_def)

lemma mapR_Inr: "(mapR f xs = Inr ys) = (map f xs = map Inr ys)"
proof (induction xs arbitrary: ys)
  case Nil
  then show ?case by auto
next
  case (Cons x xs)
  show ?case
  proof (cases ys)
    case Nil
    then show ?thesis by (auto simp: bindR_Inr)
  next
    case (Cons y ys')
    then show ?thesis using Cons.IH[of ys'] by (auto simp: bindR_Inr)
  qed
qed

lemma mapR_pointwise:
  assumes "\<And>x y. (f x = Inr y) = (P x \<and> y = g x)"
  shows "(mapR f xs = Inr ys) = ((\<forall>x \<in> set xs. P x) \<and> ys = map g xs)"
proof (induction xs arbitrary: ys)
  case Nil
  then show ?case by auto
next
  case (Cons x xs)
  show ?case by (auto simp: bindR_Inr assms Cons.IH)
qed

lemma mapR_index:
  "(mapR (\<lambda>r. index r i) rows = Inr ms) =
     ((\<forall>r \<in> set rows. i < length r) \<and> ms = map (\<lambda>r. r ! i) rows)"
  by (rule mapR_pointwise) (auto simp: index_Inr)

lemma span_Inr:
  "(bindR (index r 0) (\<lambda>a. bindR (index r 1) (\<lambda>b. Inr [a, b])) = Inr y) =
     (2 \<le> length r \<and> y = [r ! 0, r ! 1])"
  by (auto simp: bindR_Inr index_Inr)

lemma mapR_spans:
  "(mapR (\<lambda>r. bindR (index r 0) (\<lambda>a. bindR (index r 1) (\<lambda>b. Inr [a, b]))) rows = Inr spans) =
     ((\<forall>r \<in> set rows. 2 \<le> length r) \<and> spans = map (\<lambda>r. [r ! 0, r ! 1]) rows)"
  by (rule mapR_pointwise) (rule span_Inr)

lemma dict_of_rows_lookup:
  assumes "\<And>r y. val r = Inr y \<Longrightarrow> y = v r"
    and "dict_of_rows val rows d = Inr d'"
  shows "d' k = (case filter (\<lambda>r. r ! 2 = k) rows of [] \<Rightarrow> d k | r # rs \<Rightarrow> Some (v (last (r # rs))))"
  using assms(2)
proof (induction rows arbitrary: d)
  case Nil
  then show ?case by simp
next
  case (Cons r rows)
  from Cons.prems obtain y where i: "2 < length r" and y: "val r = Inr y"
    and rest: "dict_of_rows val rows (d(r ! 2 \<mapsto> y)) = Inr d'"
    by (auto simp: bindR_Inr index_Inr)
  have yv: "y = v r" using assms(1)[OF y] .
  show ?case using Cons.IH[OF rest] yv
    by (cases "filter (\<lambda>r. r ! 2 = k) rows") auto
qed

lemma dict_of_rows_rows:
  "dict_of_rows val rows d = Inr d' \<Longrightarrow> \<forall>r \<in> set rows. 2 < length r \<and> (\<exists>y. val r = Inr y)"
  by (induction rows arbitrary: d) (auto simp: bindR_Inr index_Inr)

lemma dict_of_rows_total:
  "\<forall>r \<in> set rows. 2 < length r \<and> (\<exists>y. val r = Inr y) \<Longrightarrow> \<exists>d'. dict_of_rows val rows d = Inr d'"
  by (induction rows arbitrary: d) (auto simp: bindR_def index_def)

lemma call_Inr: "(call r s = (Inr x, s')) = (r = Inr x \<and> s' = s)"
  by (cases r) (auto simp: call_def returnE_def raiseE_def)

lemma liftE_Inr: "(liftE r s = (Inr x, s')) = (r = Inr x \<and> s' = s)"
  by (auto simp: liftE_def)

lemma returnE_Inr: "(returnE x s = (Inr y, s')) = (y = x \<and> s' = s)"
  by (auto simp: returnE_def)

lemma assertE_Inr: "(assertE b m s = (Inr u, s')) = (b \<and> s' = s)"
  by (auto simp: assertE_def returnE_def raiseE_def)

lemma set_last_Inr:
  "(set_last upd s = (Inr u, s')) =
     (conv_hist_for_pe s \<noteq> [] \<and>
      s' = s\<lparr>conv_hist_for_pe :=
                butlast (conv_hist_for_pe s) @ [upd (last (conv_hist_for_pe s))]\<rparr>)"
  by (auto simp: set_last_def)

lemma el_Inr:
  assumes "el M utt s = (Inr anns, s')"
  shows "\<exists>md_results el_results d.
      md M utt = Inr md_results \<and>
      generate_response M utt (map (\<lambda>r. [r ! 0, r ! 1]) md_results) = Inr el_results \<and>
      (\<forall>r \<in> set el_results. 4 \<le> length r) \<and>
      anns = map (take 4) el_results \<and>
      dict_of_rows (\<lambda>r. index r 3) el_results Map.empty = Inr d \<and>
      conv_hist_for_pe s \<noteq> [] \<and>
      s' = s\<lparr>conv_hist_for_pe := butlast (conv_hist_for_pe s) @
                 [(last (conv_hist_for_pe s))\<lparr>mentions := Some (map (\<lambda>r. r ! 2) el_results)\<rparr>],
             ment2ent := ment2ent s ++ d\<rparr>"
proof -
  from assms obtain md_results spans el_results ms s1 d where
    a: "md M utt = Inr md_results"
    and b: "mapR (\<lambda>r. bindR (index r 0) (\<lambda>a. bindR (index r 1) (\<lambda>b. Inr [a, b]))) md_results
              = Inr spans"
    and c: "generate_response M utt spans = Inr el_results"
    and d: "mapR (\<lambda>r. index r 2) el_results = Inr ms"
    and e: "set_last (\<lambda>t. t\<lparr>mentions := Some ms\<rparr>) s = (Inr (), s1)"
    and f: "dict_of_rows (\<lambda>r. index r 3) el_results Map.empty = Inr d"
    and g: "s' = s1\<lparr>ment2ent := ment2ent s1 ++ d\<rparr>"
    and h: "anns = map (take 4) el_results"
    unfolding el_def ed_def bindE_Inr call_Inr liftE_Inr returnE_Inr
    by auto
  have len: "\<forall>r \<in> set el_results. 4 \<le> length r"
    using dict_of_rows_rows[OF f] by (auto simp: index_Inr)
  show ?thesis
    using a b c d e f g h len unfolding mapR_spans mapR_index set_last_Inr
    by auto
qed

subsection \<open>What entity linking and personal-entity linking keep\<close>

lemma same_map_refl: "same_map s s"
  by (simp add: same_map_def)

lemma same_map_bindE:
  "steps same_map m \<Longrightarrow> (\<And>x. steps same_map (f x)) \<Longrightarrow> steps same_map (bindE m f)"
  by (rule steps_bindE[where R = same_map]) (auto simp: same_map_def)

lemma same_map_set_last: "steps same_map (set_last u)"
  by (simp add: steps_def set_last_def same_map_def)

lemmas same_map_intros =
  same_map_bindE
  steps_returnE[of same_map, OF same_map_refl]
  steps_raiseE[of same_map, OF same_map_refl]
  steps_liftE[of same_map, OF same_map_refl]
  steps_call[of same_map, OF same_map_refl]
  steps_assertE[of same_map, OF same_map_refl]
  steps_call_reader[of same_map, OF same_map_refl]
  steps_liftE_reader[of same_map, OF same_map_refl]
  steps_case_prod3[of same_map]
  same_map_set_last

lemma same_map_pe_target: "steps same_map (pe_target M row outs)"
  unfolding pe_target_def by (intro same_map_intros)

lemma same_map_pe_targets: "steps same_map (pe_targets M rows outs)"
  by (induction rows arbitrary: outs) (auto intro!: same_map_intros same_map_pe_target)

lemma same_map_pe: "steps same_map (pe M utt)"
  unfolding pe_def by (intro same_map_intros same_map_pe_targets)

lemma pe_map: "pe M utt s = (r, s') \<Longrightarrow> ment2ent s' = ment2ent s"
  using stepsD[OF same_map_pe] by (simp add: same_map_def)

lemma pe_targets_map: "pe_targets M rows outs s = (r, s') \<Longrightarrow> ment2ent s' = ment2ent s"
  using stepsD[OF same_map_pe_targets] by (simp add: same_map_def)

lemma touches_last_refl: "touches_last s s"
  by (simp add: touches_last_def)

lemma touches_last_trans: "touches_last a b \<Longrightarrow> touches_last b c \<Longrightarrow> touches_last a c"
  by (auto simp: touches_last_def)

lemma touches_last_bindE:
  "steps touches_last m \<Longrightarrow> (\<And>x. steps touches_last (f x)) \<Longrightarrow> steps touches_last (bindE m f)"
  by (rule steps_bindE[where R = touches_last]) (rule touches_last_trans)

lemma touches_last_set_mentions:
  "steps touches_last (set_last (\<lambda>t. t\<lparr>mentions := x\<rparr>))"
  by (simp add: steps_def set_last_def touches_last_def)

lemma touches_last_set_pems:
  "steps touches_last (set_last (\<lambda>t. t\<lparr>pems := x\<rparr>))"
  by (simp add: steps_def set_last_def touches_last_def)

lemmas touches_last_intros =
  touches_last_bindE
  steps_returnE[of touches_last, OF touches_last_refl]
  steps_raiseE[of touches_last, OF touches_last_refl]
  steps_liftE[of touches_last, OF touches_last_refl]
  steps_call[of touches_last, OF touches_last_refl]
  steps_assertE[of touches_last, OF touches_last_refl]
  steps_call_reader[of touches_last, OF touches_last_refl]
  steps_liftE_reader[of touches_last, OF touches_last_refl]
  steps_case_prod3[of touches_last]
  touches_last_set_mentions touches_last_set_pems

lemma touches_last_ed: "steps touches_last (ed M t sp)"
  unfolding ed_def by (intro touches_last_intros)

lemma touches_last_el: "steps touches_last (el M utt)"
  unfolding el_def
  apply (intro touches_last_intros touches_last_ed)
  apply (simp add: steps_def touches_last_def)
  done

lemma touches_last_pe_target: "steps touches_last (pe_target M row outs)"
  unfolding pe_target_def by (intro touches_last_intros)

lemma touches_last_pe_targets: "steps touches_last (pe_targets M rows outs)"
  by (induction rows arbitrary: outs) (auto intro!: touches_last_intros touches_last_pe_target)

lemma touches_last_pe: "steps touches_last (pe M utt)"
  unfolding pe_def by (intro touches_last_intros touches_last_pe_targets)

lemma pe_Inr:
  assumes "pe M utt s = (Inr anns, s')"
  shows "\<exists>pem_results pem2result outputs s1.
      pem_detector M utt = Inr pem_results \<and>
      dict_of_rows Inr pem_results Map.empty = Inr pem2result \<and>
      pe_targets M pem_results [] s = (Inr outputs, s1) \<and>
      conv_hist_for_pe s1 \<noteq> [] \<and>
      s' = s1\<lparr>conv_hist_for_pe := butlast (conv_hist_for_pe s1) @
                 [(last (conv_hist_for_pe s1))\<lparr>pems := Some []\<rparr>]\<rparr> \<and>
      pe_entities pem2result (ment2ent s1) outputs [] = Inr anns"
  using assms
  unfolding pe_def bindE_Inr call_Inr liftE_Inr returnE_Inr set_last_Inr
  by auto

lemma filter_take4:
  assumes "\<forall>r \<in> set rows. 4 \<le> length r"
  shows "filter (\<lambda>a. a ! 2 = k) (map (take 4) rows) = map (take 4) (filter (\<lambda>r. r ! 2 = k) rows)"
  using assms by (induction rows) auto

lemma el_map:
  assumes "el M utt s = (Inr anns, s')"
  shows "ment2ent s' k =
     (case filter (\<lambda>a. a ! 2 = k) anns of [] \<Rightarrow> ment2ent s k | a # as \<Rightarrow> Some (last (a # as) ! 3))"
proof -
  from el_Inr[OF assms] obtain el_results d where
    len: "\<forall>r \<in> set el_results. 4 \<le> length r"
    and anns: "anns = map (take 4) el_results"
    and d: "dict_of_rows (\<lambda>r. index r 3) el_results Map.empty = Inr d"
    and m: "ment2ent s' = ment2ent s ++ d"
    by auto
  have dk: "d k = (case filter (\<lambda>r. r ! 2 = k) el_results of [] \<Rightarrow> None
                   | r # rs \<Rightarrow> Some (last (r # rs) ! 3))"
    using dict_of_rows_lookup[where val = "\<lambda>r. index r 3" and v = "\<lambda>r. r ! 3", OF _ d, of k]
    by (simp add: index_Inr)
  show ?thesis
  proof (cases "filter (\<lambda>r. r ! 2 = k) el_results")
    case Nil
    then show ?thesis using dk m anns filter_take4[OF len, of k] by (simp add: map_add_def)
  next
    case (Cons r rs)
    have "last (r # rs) \<in> set (filter (\<lambda>r. r ! 2 = k) el_results)"
      using Cons last_in_set[of "r # rs"] by simp
    then have l4: "4 \<le> length (last (r # rs))" using len by auto
    have "last (map (take 4) (r # rs)) ! 3 = last (r # rs) ! 3"
      using l4 by (simp only: last_map[of "r # rs" "take 4", OF list.distinct(2)]) simp
    then show ?thesis using dk m anns filter_take4[OF len, of k] Cons
      by (simp add: map_add_def)
  qed
qed

lemma pe_pems:
  assumes "pe M utt s = (Inr anns, s')"
  shows "conv_hist_for_pe s' \<noteq> [] \<and> pems (last (conv_hist_for_pe s')) = Some []"
  using pe_Inr[OF assms] by auto

lemma hist_begin_turn:
  "conv_hist_for_pe (begin_turn sp utt s) = conv_hist_for_pe s @ [new_hist sp utt]"
  by (simp add: begin_turn_def)

lemma annotate_turn_hist:
  assumes "annotate_turn M turn ret s = (Inr ret', s')"
  shows "\<exists>t. conv_hist_for_pe s' = conv_hist_for_pe s @ [t] \<and> clean_turn t \<and>
           getitem (heap s) turn k_speaker = Inr (speaker t)"
  using assms
proof (cases rule: annotate_turn_Inr)
  case (system utt)
  then show ?thesis by (simp add: hist_begin_turn new_hist_def clean_turn_def)
next
  case (user utt elr s2 per s3)
  let ?b = "begin_turn USER utt s"
  have t1: "touches_last ?b s2" by (rule stepsD[OF touches_last_el user(3)])
  have t2: "touches_last s2 s3" by (rule stepsD[OF touches_last_pe user(4)])
  have t: "touches_last ?b s3" by (rule touches_last_trans[OF t1 t2])
  have ne: "conv_hist_for_pe s3 \<noteq> []" and p: "pems (last (conv_hist_for_pe s3)) = Some []"
    using pe_pems[OF user(4)] by auto
  have bl: "butlast (conv_hist_for_pe s3) = conv_hist_for_pe s"
    using t by (simp add: touches_last_def hist_begin_turn)
  have sp: "speaker (last (conv_hist_for_pe s3)) = USER"
    using t by (simp add: touches_last_def hist_begin_turn new_hist_def)
  have "conv_hist_for_pe s3 = conv_hist_for_pe s @ [last (conv_hist_for_pe s3)]"
    using append_butlast_last_id[OF ne] bl by simp
  moreover have "clean_turn (last (conv_hist_for_pe s3))" using sp p by (simp add: clean_turn_def)
  moreover have "conv_hist_for_pe s' = conv_hist_for_pe s3" using user(6) by (simp add: finish_turn_def)
  ultimately show ?thesis using sp user(2) by metis
qed

lemma annotate_loop_hist:
  "annotate_loop M turns ret s = (Inr ret', s') \<Longrightarrow> heap s = h0 @ e0 \<Longrightarrow>
   list_all (valid_turn h0) turns \<Longrightarrow>
   \<exists>new. conv_hist_for_pe s' = conv_hist_for_pe s @ new \<and>
     list_all2 (\<lambda>turn t. map_of (dict_items h0 turn) k_speaker = Some (speaker t) \<and> clean_turn t)
       turns new"
proof (induction turns arbitrary: ret s e0)
  case Nil
  then show ?case by (simp add: returnE_def)
next
  case (Cons t ts)
  from Cons.prems(1) obtain ret1 s1 where t1: "annotate_turn M t ret s = (Inr ret1, s1)"
    and l: "annotate_loop M ts ret1 s1 = (Inr ret', s')"
    by (auto simp: bindE_Inr)
  from annotate_turn_heap[OF t1] obtain e1 where e1: "heap s1 = heap s @ e1" by auto
  have h1: "heap s1 = h0 @ (e0 @ e1)" using e1 Cons.prems(2) by simp
  from annotate_turn_hist[OF t1] obtain th where
    th: "conv_hist_for_pe s1 = conv_hist_for_pe s @ [th]" "clean_turn th"
      "getitem (heap s) t k_speaker = Inr (speaker th)" by blast
  have vt: "valid_turn h0 t" using Cons.prems(3) by simp
  have d: "dict_items (heap s) t = dict_items h0 t"
    using vt Cons.prems(2) by (simp add: valid_turn_def dict_items_append)
  have sp: "map_of (dict_items h0 t) k_speaker = Some (speaker th)"
    using getitem_dict_items[OF th(3)] d by simp
  from Cons.IH[OF l h1] Cons.prems(3) obtain new where
    n: "conv_hist_for_pe s' = conv_hist_for_pe s1 @ new"
       "list_all2 (\<lambda>turn t. map_of (dict_items h0 turn) k_speaker = Some (speaker t) \<and> clean_turn t)
          ts new" by auto
  show ?case using n th sp by (intro exI[of _ "th # new"]) simp
qed

lemma annotate_loop_cut:
  assumes "annotate_loop M turns ret s = (Inr ret', s')"
  shows "\<exists>ret_i s_i. annotate_loop M (take i turns) ret s = (Inr ret_i, s_i) \<and>
           annotate_loop M (drop i turns) ret_i s_i = (Inr ret', s')"
proof -
  have "annotate_loop M (take i turns @ drop i turns) ret s = (Inr ret', s')"
    using assms by simp
  then have "bindE (annotate_loop M (take i turns) ret) (\<lambda>r. annotate_loop M (drop i turns) r) s
      = (Inr ret', s')"
    by (simp only: annotate_loop_append)
  then show ?thesis unfolding bindE_Inr by blast
qed

lemma annotate_Inr_loop:
  assumes "annotate M conv s = (Inr ret, s')"
  shows "annotate_loop M (list_items (heap s) conv) []
           (s\<lparr>conv_hist_for_pe := [], ment2ent := Map.empty\<rparr>) = (Inr ret, s')"
  using assms by (cases "error_check (heap s) conv") (auto simp: annotate_closed)

lemma pe_run0:
  "pe M0 (Atom (AStr ''my dog Rex''))
     \<lparr>conv_hist_for_pe = [\<lparr>speaker = USER, utterance = Atom (AStr ''my dog Rex''),
                            mentions = Some [AStr ''Rex''], pems = None\<rparr>],
      ment2ent = [AStr ''Rex'' \<mapsto> AStr ''Rex_(dog)''], heap = heap0\<rparr> =
   (Inr [[AInt 0, AInt 6, AStr ''my dog'', AStr ''Rex_(dog)'']],
     \<lparr>conv_hist_for_pe = [\<lparr>speaker = USER, utterance = Atom (AStr ''my dog Rex''),
                            mentions = Some [AStr ''Rex''], pems = Some []\<rparr>],
      ment2ent = [AStr ''Rex'' \<mapsto> AStr ''Rex_(dog)''], heap = heap0\<rparr>)"
  by (simp add: run_defs M0_def)

subsection \<open>Personal-entity linking, taken apart\<close>

lemma pe_target_closed:
  assumes "conv_hist_for_pe s \<noteq> []" and "unpack3 row = Inr (a, b, pem)"
  shows "pe_target M row outs s =
     (case get_tokens_with_info M (conv_hist_for_pe (with_target pem s)) of
        Inl n \<Rightarrow> (Inl (Propagated n), with_target pem s)
      | Inr ti \<Rightarrow>
         (case get_input_of_pe_linking M ti of
            Inl n \<Rightarrow> (Inl (Propagated n), with_target pem s)
          | Inr ds \<Rightarrow>
             (case ds of
                [d] \<Rightarrow>
                  (case get_scores M d of
                     Inl n \<Rightarrow> (Inl (Propagated n), with_target pem s)
                   | Inr sc \<Rightarrow>
                      (case get_results M d (conv_hist_for_pe (with_target pem s)) (threshold M) sc of
                         Inl n \<Rightarrow> (Inl (Propagated n), with_target pem s)
                       | Inr res \<Rightarrow> (Inr (outs @ res), with_target pem s)))
              | _ \<Rightarrow> (Inl (AssertionError OneTargetMessage), with_target pem s))))"
  using assms
  by (simp add: pe_target_def bindE_def liftE_def set_last_def with_target_def call_def
      returnE_def raiseE_def assertE_def index_def
      split: sum.splits list.splits)

lemma unpack3_Inr: "(unpack3 xs = Inr y) = (\<exists>a b c. xs = [a, b, c] \<and> y = (a, b, c))"
  by (auto simp: unpack3_def split: list.splits)

lemma pe_target_Inr_row:
  assumes "pe_target M row outs s = (Inr outs', s')"
  shows "length row = 3 \<and> conv_hist_for_pe s \<noteq> []"
proof -
  from assms obtain x where u: "unpack3 row = Inr x"
    and r: "(case x of (_, _, pem) \<Rightarrow>
              bindE (set_last (\<lambda>t. t\<lparr>pems := Some [pem]\<rparr>)) (\<lambda>_.
              bindE (\<lambda>s. call (get_tokens_with_info M (conv_hist_for_pe s)) s) (\<lambda>token_with_info.
              bindE (call (get_input_of_pe_linking M token_with_info)) (\<lambda>input_data.
              bindE (assertE (length input_data = 1) OneTargetMessage) (\<lambda>_.
              bindE (liftE (index input_data 0)) (\<lambda>input_data0.
              bindE (call (get_scores M input_data0)) (\<lambda>scores.
              bindE (\<lambda>s. call (get_results M input_data0 (conv_hist_for_pe s) (threshold M) scores) s)
                (\<lambda>res.
              returnE (outs @ res))))))))) s = (Inr outs', s')"
    unfolding pe_target_def bindE_Inr[of "liftE (unpack3 row)"] liftE_Inr by blast
  obtain a b pem where x: "x = (a, b, pem)" by (cases x)
  from r have "\<exists>u s1. set_last (\<lambda>t. t\<lparr>pems := Some [pem]\<rparr>) s = (Inr u, s1)"
    unfolding x prod.case bindE_Inr[of "set_last (\<lambda>t. t\<lparr>pems := Some [pem]\<rparr>)"] by blast
  then have "conv_hist_for_pe s \<noteq> []" unfolding set_last_Inr by blast
  moreover have "length row = 3" using u unfolding unpack3_Inr by auto
  ultimately show ?thesis by simp
qed

lemma pe_targets_Inr_rows:
  "pe_targets M rows outs s = (Inr outs', s') \<Longrightarrow>
     (\<forall>row \<in> set rows. length row = 3) \<and> (rows \<noteq> [] \<longrightarrow> conv_hist_for_pe s \<noteq> [])"
proof (induction rows arbitrary: outs s)
  case Nil
  then show ?case by simp
next
  case (Cons row rows)
  from Cons.prems obtain o1 s1 where a: "pe_target M row outs s = (Inr o1, s1)"
    and b: "pe_targets M rows o1 s1 = (Inr outs', s')"
    by (auto simp: bindE_Inr)
  show ?case using pe_target_Inr_row[OF a] Cons.IH[OF b] by simp
qed

lemma getkey_Inr: "(getkey d k = Inr v) = (map_of d k = Some v)"
  by (auto simp: getkey_def split: option.splits)

lemma getmap_Inr: "(getmap m k = Inr v) = (m k = Some v)"
  by (auto simp: getmap_def split: option.splits)

lemma pe_entities_Inr:
  "pe_entities p2r m2e outs ret = Inr anns \<Longrightarrow>
     \<exists>new. anns = ret @ new \<and>
       list_all2 (\<lambda>r a. \<exists>pem p eem ent.
           map_of r ''personal_entity_mention'' = Some pem \<and> p2r pem = Some p \<and>
           map_of r ''mention'' = Some eem \<and> m2e eem = Some ent \<and>
           2 < length p \<and> a = [p ! 0, p ! 1, p ! 2, ent]) outs new"
proof (induction outs arbitrary: ret)
  case Nil
  then show ?case by simp
next
  case (Cons r rs)
  from Cons.prems obtain pem p eem ent where
    f: "map_of r ''personal_entity_mention'' = Some pem" "p2r pem = Some p"
       "map_of r ''mention'' = Some eem" "m2e eem = Some ent" "2 < length p"
    and rest: "pe_entities p2r m2e rs (ret @ [[p ! 0, p ! 1, p ! 2, ent]]) = Inr anns"
    by (auto simp: bindR_Inr getkey_Inr getmap_Inr index_Inr)
  from Cons.IH[OF rest] obtain new where
    n: "anns = (ret @ [[p ! 0, p ! 1, p ! 2, ent]]) @ new"
       "list_all2 (\<lambda>r a. \<exists>pem p eem ent.
           map_of r ''personal_entity_mention'' = Some pem \<and> p2r pem = Some p \<and>
           map_of r ''mention'' = Some eem \<and> m2e eem = Some ent \<and>
           2 < length p \<and> a = [p ! 0, p ! 1, p ! 2, ent]) rs new" by blast
  show ?case using n f by (intro exI[of _ "[p ! 0, p ! 1, p ! 2, ent] # new"]) auto
qed

lemma pem2result_lookup:
  assumes "dict_of_rows Inr rows Map.empty = Inr p2r" and "p2r pem = Some p"
  shows "p \<in> set rows \<and> p ! 2 = pem \<and> p = last (filter (\<lambda>r. r ! 2 = pem) rows)"
proof -
  have dk: "p2r pem = (case filter (\<lambda>r. r ! 2 = pem) rows of [] \<Rightarrow> None
                   | r # rs \<Rightarrow> Some (last (r # rs)))"
    using dict_of_rows_lookup[where val = Inr and v = "\<lambda>r. r", OF _ assms(1), of pem] by simp
  show ?thesis
  proof (cases "filter (\<lambda>r. r ! 2 = pem) rows")
    case Nil
    then show ?thesis using dk assms(2) by simp
  next
    case (Cons r rs)
    then have p: "p = last (filter (\<lambda>r. r ! 2 = pem) rows)" using dk assms(2) by simp
    have "last (filter (\<lambda>r. r ! 2 = pem) rows) \<in> set (filter (\<lambda>r. r ! 2 = pem) rows)"
      using Cons by (intro last_in_set) simp
    then show ?thesis using p by auto
  qed
qed

lemma pem2result_None:
  assumes "dict_of_rows Inr rows Map.empty = Inr p2r"
  shows "(p2r pem = None) = (pem \<notin> (\<lambda>r. r ! 2) ` set rows)"
proof -
  have dk: "p2r pem = (case filter (\<lambda>r. r ! 2 = pem) rows of [] \<Rightarrow> None
                   | r # rs \<Rightarrow> Some (last (r # rs)))"
    using dict_of_rows_lookup[where val = Inr and v = "\<lambda>r. r", OF _ assms(1), of pem] by simp
  show ?thesis unfolding dk
    by (cases "filter (\<lambda>r. r ! 2 = pem) rows") (auto simp: filter_empty_conv dest: filter_eq_ConsD)
qed

lemma pe_entities_bad:
  assumes "r \<in> set outs"
    and "map_of r ''personal_entity_mention'' = Some pem" and "map_of r ''mention'' = Some eem"
    and "p2r pem = None \<or> m2e eem = None"
    and "\<forall>p \<in> ran p2r. 2 < length p"
  shows "\<exists>k. pe_entities p2r m2e outs ret = Inl (KeyError k)"
  using assms(1)
proof (induction outs arbitrary: ret)
  case Nil
  then show ?case by simp
next
  case (Cons r0 rs)
  show ?case
  proof (cases "getkey r0 ''personal_entity_mention''")
    case (Inl e)
    then show ?thesis using getkey_Inl[OF Inl] by (simp add: bindR_def)
  next
    case pem0: (Inr pem0)
    show ?thesis
    proof (cases "getmap p2r pem0")
      case (Inl e)
      then show ?thesis using getmap_Inl[OF Inl] pem0 by (simp add: bindR_def)
    next
      case p0: (Inr p0)
      then have "p0 \<in> ran p2r" by (auto simp: getmap_Inr ran_def)
      then have l: "2 < length p0" using assms(5) by blast
      show ?thesis
      proof (cases "getkey r0 ''mention''")
        case (Inl e)
        then show ?thesis using getkey_Inl[OF Inl] pem0 p0 by (simp add: bindR_def)
      next
        case eem0: (Inr eem0)
        show ?thesis
        proof (cases "getmap m2e eem0")
          case (Inl e)
          then show ?thesis using getmap_Inl[OF Inl] pem0 p0 eem0 by (simp add: bindR_def)
        next
          case ent0: (Inr ent0)
          have "r \<noteq> r0"
          proof
            assume "r = r0"
            then have "pem0 = pem" "eem0 = eem"
              using pem0 eem0 assms(2,3) by (auto simp: getkey_Inr)
            then show False using p0 ent0 assms(4) by (auto simp: getmap_Inr)
          qed
          then have "r \<in> set rs" using Cons.prems by simp
          have i: "index p0 0 = Inr (p0 ! 0)" "index p0 1 = Inr (p0 ! 1)"
            "index p0 2 = Inr (p0 ! 2)" using l by (auto simp: index_def)
          from Cons.IH[OF \<open>r \<in> set rs\<close>, of "ret @ [[p0 ! 0, p0 ! 1, p0 ! 2, ent0]]"]
          show ?thesis
            using pem0 p0 eem0 ent0 i by (simp add: bindR_def)
        qed
      qed
    qed
  qed
qed

lemma pe_after_targets:
  assumes "pem_detector M utt = Inr pem_results"
    and "pe_targets M pem_results [] s = (Inr outputs, s1)"
    and "pem_results \<noteq> []"
  shows "\<exists>p2r s'. dict_of_rows Inr pem_results Map.empty = Inr p2r \<and>
           pe M utt s = (pe_entities p2r (ment2ent s) outputs [], s')"
proof -
  have rows: "\<forall>row \<in> set pem_results. length row = 3" and ne: "conv_hist_for_pe s \<noteq> []"
    using pe_targets_Inr_rows[OF assms(2)] assms(3) by auto
  have "\<forall>r \<in> set pem_results. 2 < length r \<and> (\<exists>y. (Inr r :: error + atom list) = Inr y)"
    using rows by auto
  from dict_of_rows_total[where val = Inr, OF this, of Map.empty]
  obtain p2r where p: "dict_of_rows Inr pem_results Map.empty = Inr p2r" by blast
  have "touches_last s s1" by (rule stepsD[OF touches_last_pe_targets assms(2)])
  then have ne1: "conv_hist_for_pe s1 \<noteq> []" using ne by (auto simp: touches_last_def)
  have m: "ment2ent s1 = ment2ent s" by (rule pe_targets_map[OF assms(2)])
  have "pe M utt s = (pe_entities p2r (ment2ent s) outputs [],
          s1\<lparr>conv_hist_for_pe := butlast (conv_hist_for_pe s1) @
                 [(last (conv_hist_for_pe s1))\<lparr>pems := Some []\<rparr>]\<rparr>)"
    using assms(1,2) p ne1 m
    by (simp add: pe_def bindE_def call_def returnE_def liftE_def set_last_def)
  then show ?thesis using p by blast
qed

subsection \<open>Further sample runs\<close>

lemma s_mid_hist: "conv_hist_for_pe s_mid \<noteq> []"
  by (simp add: s_mid_def)

lemma row0_unpack: "unpack3 row0 = Inr (AInt 0, AInt 6, AStr ''my dog'')"
  by (simp add: unpack3_def row0_def)

lemma pe_target_run1:
  "fst (pe_target M1 row0 [] s_mid) = Inl (AssertionError OneTargetMessage)"
  by (simp add: run_defs M1_def M0_def s_mid_def row0_def)

lemma pe_target_run0:
  "fst (pe_target M0 row0 [] s_mid) =
     Inr [[(''personal_entity_mention'', AStr ''my dog''), (''mention'', AStr ''Rex'')]]"
  by (simp add: run_defs M0_def s_mid_def row0_def)

lemma el_run0: "el M0 utt0 s_begin = (Inr [[AInt 7, AInt 3, AStr ''Rex'', AStr ''Rex_(dog)'']], s_mid)"
  by (simp add: run_defs M0_def s_begin_def s_mid_def utt0_def)

lemma pe_run_mid:
  "fst (pe M0 utt0 s_mid) = Inr [[AInt 0, AInt 6, AStr ''my dog'', AStr ''Rex_(dog)'']]"
  by (simp add: run_defs M0_def s_mid_def utt0_def)

lemma run3: "fst (annotate M3 (Ref 0) s0) = Inl (KeyError (Atom (AStr ''Fido'')))"
  by (simp add: run_defs M3_def M0_def heap0_def s0_def)

lemma run3_reads:
  "getitem (heap s0) (Ref 1) k_utterance = Inr utt0"
  "getitem (heap s0) (Ref 1) k_speaker = Inr USER"
  by (simp_all add: getitem_def lookup_def s0_def heap0_def utt0_def)

lemma run3_el:
  "fst (el M3 utt0 (begin_turn USER utt0 s0)) = Inr [[AInt 7, AInt 3, AStr ''Rex'', AStr ''Rex_(dog)'']]"
  "ment2ent (snd (el M3 utt0 (begin_turn USER utt0 s0))) (AStr ''Fido'') = None"
  by (simp_all add: run_defs M3_def M0_def heap0_def s0_def utt0_def begin_turn_def new_hist_def
      new_record_def)

lemma run3_targets:
  "fst (pe_targets M3 [row0] [] (snd (el M3 utt0 (begin_turn USER utt0 s0)))) =
     Inr [[(''personal_entity_mention'', AStr ''my dog''), (''mention'', AStr ''Fido'')]]"
  by (simp add: run_defs M3_def M0_def heap0_def s0_def utt0_def begin_turn_def new_hist_def
      new_record_def row0_def)

subsection \<open>Where an exception of the loop comes from\<close>



subsection \<open>The mention map across the turns\<close>

lemma latest_append: "latest (xs @ ys) d k = latest ys (latest xs d k) k"
proof (cases "filter (\<lambda>a. a ! 2 = k) ys")
  case Nil
  then show ?thesis by (simp add: latest_def)
next
  case (Cons y ys')
  then have "last (filter (\<lambda>a. a ! 2 = k) xs @ y # ys') = last (y # ys')" by simp
  then show ?thesis using Cons
    by (cases "filter (\<lambda>a. a ! 2 = k) xs") (simp_all add: latest_def)
qed

lemma latest_Nil: "latest [] d k = d"
  by (simp add: latest_def)

lemma el_latest:
  assumes "el M utt s = (Inr anns, s')"
  shows "ment2ent s' k = latest anns (ment2ent s k) k"
  using el_map[OF assms, of k] by (simp add: latest_def)

lemma annotate_loop_map:
  "annotate_loop M turns ret s = (Inr ret', s') \<Longrightarrow> heap s = h @ e0 \<Longrightarrow>
   list_all (valid_turn h) turns \<Longrightarrow>
   \<exists>els. length els = length turns \<and>
     (\<forall>i < length turns. linked_at M h turns ret s i (els ! i)) \<and>
     (\<forall>k. ment2ent s' k = latest (concat els) (ment2ent s k) k)"
proof (induction turns arbitrary: ret s e0)
  case Nil
  then show ?case by (simp add: returnE_def latest_Nil)
next
  case (Cons t ts)
  from Cons.prems(1) obtain ret1 s1 where t1: "annotate_turn M t ret s = (Inr ret1, s1)"
    and l: "annotate_loop M ts ret1 s1 = (Inr ret', s')"
    by (auto simp: bindE_Inr)
  from annotate_turn_heap[OF t1] obtain e1 where e1: "heap s1 = heap s @ e1" by auto
  have h1: "heap s1 = h @ (e0 @ e1)" using e1 Cons.prems(2) by simp
  have vt: "valid_turn h t" using Cons.prems(3) by simp
  have d: "dict_items (heap s) t = dict_items h t"
    using vt Cons.prems(2) by (simp add: valid_turn_def dict_items_append)
  from Cons.IH[OF l h1] Cons.prems(3) obtain els where
    n: "length els = length ts"
       "\<forall>i < length ts. linked_at M h ts ret1 s1 i (els ! i)"
       "\<forall>k. ment2ent s' k = latest (concat els) (ment2ent s1 k) k" by auto
  have start: "annotate_loop M (take 0 (t # ts)) ret s = (Inr ret, s)"
    by (simp add: returnE_def)
  have later: "linked_at M h (t # ts) ret s (Suc i) (els ! i)" if "i < length ts" for i
  proof -
    have "annotate_loop M (take (Suc i) (t # ts)) ret s = annotate_loop M (take i ts) ret1 s1"
      using t1 by (simp add: bindE_def)
    then show ?thesis using n(2) that by (simp add: linked_at_def)
  qed
  obtain elt where
    first: "linked_at M h (t # ts) ret s 0 elt"
    and m1: "\<forall>k. ment2ent s1 k = latest elt (ment2ent s k) k"
    using t1
  proof (cases rule: annotate_turn_Inr)
    case (system utt)
    have "linked_at M h (t # ts) ret s 0 []"
      unfolding linked_at_def using start getitem_dict_items[OF system(2)] d by auto
    moreover have "\<forall>k. ment2ent s1 k = latest [] (ment2ent s k) k"
      using system(4) by (simp add: latest_Nil begin_turn_def)
    ultimately show ?thesis using that by blast
  next
    case (user utt elr s2 per s3)
    have "linked_at M h (t # ts) ret s 0 elr"
      unfolding linked_at_def
      using start getitem_dict_items[OF user(1)] getitem_dict_items[OF user(2)] d user(3)
      by auto
    moreover have "\<forall>k. ment2ent s1 k = latest elr (ment2ent s k) k"
    proof
      fix k
      have "ment2ent s1 = ment2ent s2"
        using pe_map[OF user(4)] user(6) by (simp add: finish_turn_def)
      moreover have "ment2ent (begin_turn USER utt s) = ment2ent s" by (simp add: begin_turn_def)
      ultimately show "ment2ent s1 k = latest elr (ment2ent s k) k"
        using el_latest[OF user(3), of k] by simp
    qed
    ultimately show ?thesis using that by blast
  qed
  have all: "\<forall>i < length (t # ts). linked_at M h (t # ts) ret s i ((elt # els) ! i)"
  proof (intro allI impI)
    fix i assume "i < length (t # ts)"
    then show "linked_at M h (t # ts) ret s i ((elt # els) ! i)"
      using first later by (cases i) auto
  qed
  have "\<forall>k. ment2ent s' k = latest (concat (elt # els)) (ment2ent s k) k"
    using n(3) m1 by (simp add: latest_append)
  then show ?case using n(1) all by (intro exI[of _ "elt # els"]) simp
qed

lemma latest_none: "\<forall>a \<in> set rows. a ! 2 \<noteq> k \<Longrightarrow> latest rows d k = d"
  by (simp add: latest_def filter_empty_conv[THEN iffD2])

lemma latest_some: "\<exists>a \<in> set rows. a ! 2 = k \<Longrightarrow> latest rows d k = latest rows d' k"
proof -
  assume "\<exists>a \<in> set rows. a ! 2 = k"
  then have "filter (\<lambda>a. a ! 2 = k) rows \<noteq> []" by (simp add: filter_empty_conv)
  then show ?thesis by (cases "filter (\<lambda>a. a ! 2 = k) rows") (simp_all add: latest_def)
qed

lemma latest_concat_none:
  "\<forall>rows \<in> set els. \<forall>a \<in> set rows. a ! 2 \<noteq> k \<Longrightarrow> latest (concat els) d k = d"
  by (rule latest_none) auto

lemma latest_most_recent:
  assumes "i < length els" and "\<exists>a \<in> set (els ! i). a ! 2 = k"
    and "\<forall>j. i < j \<and> j < length els \<longrightarrow> (\<forall>a \<in> set (els ! j). a ! 2 \<noteq> k)"
  shows "latest (concat els) d k = latest (els ! i) None k"
proof -
  have split: "els = take i els @ els ! i # drop (Suc i) els"
    using assms(1) by (simp add: id_take_nth_drop)
  have post: "\<forall>rows \<in> set (drop (Suc i) els). \<forall>a \<in> set rows. a ! 2 \<noteq> k"
  proof
    fix rows assume "rows \<in> set (drop (Suc i) els)"
    then obtain j where j: "j < length (drop (Suc i) els)" "rows = drop (Suc i) els ! j"
      by (auto simp: in_set_conv_nth)
    then have r: "rows = els ! (Suc i + j)" and "i < Suc i + j \<and> Suc i + j < length els"
      by auto
    then have "\<forall>a \<in> set (els ! (Suc i + j)). a ! 2 \<noteq> k" using assms(3) by blast
    then show "\<forall>a \<in> set rows. a ! 2 \<noteq> k" using r by simp
  qed
  have "concat els = concat (take i els) @ els ! i @ concat (drop (Suc i) els)"
    by (subst split) simp
  then have "latest (concat els) d k =
      latest (concat (drop (Suc i) els)) (latest (els ! i) (latest (concat (take i els)) d k) k) k"
    by (simp add: latest_append)
  also have "\<dots> = latest (els ! i) (latest (concat (take i els)) d k) k"
    by (rule latest_concat_none[OF post])
  also have "\<dots> = latest (els ! i) None k" by (rule latest_some[OF assms(2)])
  finally show ?thesis .
qed

subsection \<open>Sample runs for the validation, the reset and the map\<close>



lemma stale_valid: "valid_conv (heap s_stale) (Ref 0)"
  by (simp add: valid_conv_def is_list_def list_items_def lookup_def s_stale_def)

lemma stale_items: "list_items (heap s_stale) (Ref 0) = []"
  by (simp add: list_items_def lookup_def s_stale_def)

lemma stale_hist: "conv_hist_for_pe s_stale \<noteq> []"
  by (simp add: s_stale_def s0'_def)

lemma valid5: "valid_conv (heap s5) (Ref 0)"
  by (simp add: valid_conv_def valid_turn_def is_list_def is_dict_def list_items_def
      dict_items_def lookup_def s5_def heap5_def)

lemma run5: "fst (annotate M5 (Ref 0) s5) = Inr [Ref 4, Ref 9, Ref 10]"
  by (simp add: run_defs M5_def M0_def heap5_def s5_def)

lemma run5_map:
  "ment2ent (snd (annotate M5 (Ref 0) s5)) (AStr ''Rex'') = Some (AStr ''Rex_(band)'')"
  "ment2ent (snd (annotate M5 (Ref 0) s5)) (AStr ''Ann'') = Some (AStr ''Ann_(name)'')"
  "ment2ent (snd (annotate M5 (Ref 0) s5)) (AStr ''Bob'') = None"
  by (simp_all add: run_defs M5_def M0_def heap5_def s5_def)

lemma run6:
  "fst (pe M6 utt6 s_dup) =
     Inr [[AInt 18, AInt 6, AStr ''my dog'', AStr ''Rex_(dog)''],
          [AInt 18, AInt 6, AStr ''my dog'', AStr ''Rex_(dog)'']]"
  by (simp add: run_defs M6_def M0_def s_dup_def utt6_def)

section \<open>The shape of the result\<close>

text \<open>
  Claim C1. For every valid conversation, what \<^verbatim>\<open>annotate\<close> returns is a list of the same
  length as the input in which, at every position, the record carries the speaker and the
  utterance of the input turn and has the key \<^verbatim>\<open>annotations\<close> exactly when the speaker of
  the turn is \<^verbatim>\<open>USER\<close>. The only way for \<^verbatim>\<open>annotate\<close> not to return on a valid conversation
  is an exception raised while a USER turn is processed: a failure of a collaborator, an
  index, unpacking or key error on what a collaborator returned, or the single-target
  assertion of \<^verbatim>\<open>_pe\<close>.
\<close>

theorem annotate_shape:
  assumes "valid_conv (heap s) conv"
  shows "case annotate M conv s of
           (Inr ret, s') \<Rightarrow>
             length ret = length (list_items (heap s) conv) \<and>
             list_all2 (\<lambda>turn r. carries (heap s) turn (heap s') r) (list_items (heap s) conv) ret
         | (Inl e, s') \<Rightarrow> pipeline_error e"
proof -
  let ?s0 = "s\<lparr>conv_hist_for_pe := [], ment2ent := Map.empty\<rparr>"
  let ?turns = "list_items (heap s) conv"
  obtain r s' where a: "annotate M conv s = (r, s')" by (cases "annotate M conv s")
  have "error_check (heap s) conv = Inr ()" using assms error_check_Inr by simp
  then have l: "annotate_loop M ?turns [] ?s0 = (r, s')"
    using a by (simp add: annotate_closed)
  have v: "list_all (valid_turn (heap s)) ?turns"
    using assms by (simp add: valid_conv_def)
  show ?thesis
  proof (cases r)
    case (Inl e)
    then have "pipeline_error e" using annotate_loop_pipeline_error[of M ?turns "[]" ?s0 e s'] l v
      by simp
    then show ?thesis using a Inl by simp
  next
    case (Inr ret)
    from annotate_loop_carries[of M ?turns "[]" ?s0 ret s' "heap s" "[]"] l v Inr
    have "list_all2 (\<lambda>turn r. carries (heap s) turn (heap s') r) ?turns ret" by simp
    then show ?thesis using a Inr by (simp add: list_all2_lengthD)
  qed
qed

theorem annotate_shape_witness:
  "valid_conv (heap s0) (Ref 0) \<and> annotate M0 (Ref 0) s0 = (Inr [Ref 3, Ref 7], s0') \<and>
   length [Ref 3, Ref 7 :: pyval] = length (list_items (heap s0) (Ref 0)) \<and>
   list_all2 (\<lambda>turn r. carries (heap s0) turn (heap s0') r)
     (list_items (heap s0) (Ref 0)) [Ref 3, Ref 7] \<and>
   fst (annotate M1 (Ref 0) s0) = Inl (AssertionError OneTargetMessage) \<and>
   pipeline_error (AssertionError OneTargetMessage)"
proof -
  have "pipeline_error (AssertionError OneTargetMessage)" by (simp add: pipeline_error_def)
  then show ?thesis
    using valid0 run0 run1 annotate_shape[OF valid0, of M0] by simp
qed

section \<open>Input validation\<close>




section \<open>The order of the annotations of a turn\<close>

text \<open>
  Claim C3. For every USER turn of a valid conversation on which \<^verbatim>\<open>annotate\<close> returns, the
  list stored under \<^verbatim>\<open>annotations\<close> in the record of that turn is the result of \<^verbatim>\<open>_el\<close>
  followed by the result of \<^verbatim>\<open>_pe\<close>, both run on the utterance of the turn in the state
  left by the turns before it, in that order and with no other reordering.
\<close>

theorem annotations_el_then_pe:
  assumes "valid_conv (heap s) conv" and "annotate M conv s = (Inr ret, s')"
    and "i < length (list_items (heap s) conv)"
    and "map_of (dict_items (heap s) (list_items (heap s) conv ! i)) k_speaker = Some USER"
  shows "\<exists>ret_i s_i utt elr s2 per s3 anns.
      annotate_loop M (take i (list_items (heap s) conv)) []
        (s\<lparr>conv_hist_for_pe := [], ment2ent := Map.empty\<rparr>) = (Inr ret_i, s_i) \<and>
      map_of (dict_items (heap s) (list_items (heap s) conv ! i)) k_utterance = Some utt \<and>
      el M utt (begin_turn USER utt s_i) = (Inr elr, s2) \<and>
      pe M utt s2 = (Inr per, s3) \<and>
      map_of (dict_items (heap s') (ret ! i)) k_annotations = Some anns \<and>
      read_rows (heap s') anns = map (map Atom) (elr @ per)"
proof -
  let ?s0 = "s\<lparr>conv_hist_for_pe := [], ment2ent := Map.empty\<rparr>"
  let ?turns = "list_items (heap s) conv"
  let ?t = "?turns ! i"
  have "error_check (heap s) conv = Inr ()" using assms(1) error_check_Inr by simp
  then have l: "annotate_loop M ?turns [] ?s0 = (Inr ret, s')"
    using assms(2) by (simp add: annotate_closed)
  from annotate_loop_split[OF l assms(3)] obtain ret_i s_i ret_b s_b where
    a: "annotate_loop M (take i ?turns) [] ?s0 = (Inr ret_i, s_i)" and
    b: "annotate_turn M ?t ret_i s_i = (Inr ret_b, s_b)" and
    c: "annotate_loop M (drop (Suc i) ?turns) ret_b s_b = (Inr ret, s')"
    by blast
  from annotate_loop_heap[OF a] obtain e1 new1 where e1: "heap s_i = heap s @ e1"
    and n1: "ret_i = new1" "length new1 = length (take i ?turns)" by auto
  have li: "length ret_i = i" using n1 assms(3) by simp
  from annotate_loop_heap[OF c] obtain e2 new2 where e2: "heap s' = heap s_b @ e2"
    and n2: "ret = ret_b @ new2" by auto
  have vt: "valid_turn (heap s) ?t"
    using assms(1,3) by (simp add: valid_conv_def list_all_length)
  have d: "dict_items (heap s_i) ?t = dict_items (heap s) ?t"
    using vt e1 by (simp add: valid_turn_def dict_items_append)
  from b show ?thesis
  proof (cases rule: annotate_turn_Inr)
    case (system utt)
    then show ?thesis using getitem_dict_items[OF system(2)] d assms(4) by simp
  next
    case (user utt elr s2 per s3)
    let ?n = "length (heap s_i)"
    have ri: "ret ! i = Ref ?n" using n2 user(5) li by (simp add: nth_append)
    have u: "map_of (dict_items (heap s) ?t) k_utterance = Some utt"
      using getitem_dict_items[OF user(1)] d by simp
    have k: "map_of (dict_items (heap s') (ret ! i)) k_annotations =
          Some (Ref (?n + 1 + length (elr @ per)))"
      using finish_turn_record[of "heap s_i" utt "elr @ per" s3 e2] e2 user(6) ri by simp
    have r: "read_rows (heap s') (Ref (?n + 1 + length (elr @ per))) = map (map Atom) (elr @ per)"
      using finish_turn_rows[of "heap s_i" utt "elr @ per" s3 e2] e2 user(6) by simp
    show ?thesis using a u user(3,4) k r by blast
  qed
qed

theorem annotations_el_then_pe_witness:
  "valid_conv (heap s0) (Ref 0) \<and> annotate M0 (Ref 0) s0 = (Inr [Ref 3, Ref 7], s0') \<and>
   (0::nat) < length (list_items (heap s0) (Ref 0)) \<and>
   map_of (dict_items (heap s0) (list_items (heap s0) (Ref 0) ! 0)) k_speaker = Some USER \<and>
   (\<exists>ret_i s_i utt elr s2 per s3 anns.
      annotate_loop M0 (take 0 (list_items (heap s0) (Ref 0))) []
        (s0\<lparr>conv_hist_for_pe := [], ment2ent := Map.empty\<rparr>) = (Inr ret_i, s_i) \<and>
      map_of (dict_items (heap s0) (list_items (heap s0) (Ref 0) ! 0)) k_utterance = Some utt \<and>
      el M0 utt (begin_turn USER utt s_i) = (Inr elr, s2) \<and>
      pe M0 utt s2 = (Inr per, s3) \<and>
      map_of (dict_items (heap s0') ([Ref 3, Ref 7] ! 0)) k_annotations = Some anns \<and>
      read_rows (heap s0') anns = map (map Atom) (elr @ per))"
proof -
  have l: "(0::nat) < length (list_items (heap s0) (Ref 0))"
    by (simp add: list_items_def lookup_def s0_def heap0_def)
  have u: "map_of (dict_items (heap s0) (list_items (heap s0) (Ref 0) ! 0)) k_speaker = Some USER"
    by (simp add: list_items_def dict_items_def lookup_def s0_def heap0_def)
  show ?thesis using valid0 run0 l u annotations_el_then_pe[OF valid0 run0 l u] by blast
qed

section \<open>The lifetime of the history and of the mention map\<close>

text \<open>
  Claim C4, as amended. On every call whose input passes validation, \<^verbatim>\<open>annotate\<close> resets the
  conversation history to the empty list and the mention-to-entity map to the empty map
  before the first turn is processed: the call is the loop over the turns started from the
  empty history and the empty map, so a conversation with no turn leaves both empty, and the
  whole outcome of the call (result or exception, and the state left behind) is the same
  whatever history and map the instance held before. A call whose input fails validation
  leaves the state as it was, and in every case the result or exception does not depend on
  the history or map held before. The history and the map are not discarded at the end of
  the call.
\<close>

theorem annotate_resets_state:
  "(valid_conv (heap s) conv \<longrightarrow>
      annotate M conv s =
        annotate_loop M (list_items (heap s) conv) []
          (s\<lparr>conv_hist_for_pe := [], ment2ent := Map.empty\<rparr>) \<and>
      annotate M conv (s\<lparr>conv_hist_for_pe := hs, ment2ent := m\<rparr>) = annotate M conv s) \<and>
   (valid_conv (heap s) conv \<and> list_items (heap s) conv = [] \<longrightarrow>
      annotate M conv s = (Inr [], s\<lparr>conv_hist_for_pe := [], ment2ent := Map.empty\<rparr>)) \<and>
   (\<not> valid_conv (heap s) conv \<longrightarrow> snd (annotate M conv s) = s) \<and>
   fst (annotate M conv (s\<lparr>conv_hist_for_pe := hs, ment2ent := m\<rparr>)) = fst (annotate M conv s)"
proof (cases "valid_conv (heap s) conv")
  case True
  then have ec: "error_check (heap s) conv = Inr ()" using error_check_Inr by simp
  have a: "annotate M conv s =
        annotate_loop M (list_items (heap s) conv) []
          (s\<lparr>conv_hist_for_pe := [], ment2ent := Map.empty\<rparr>)"
    using ec by (simp add: annotate_closed)
  have b: "annotate M conv (s\<lparr>conv_hist_for_pe := hs, ment2ent := m\<rparr>) = annotate M conv s"
    using ec by (simp add: annotate_closed)
  have c: "annotate M conv s = (Inr [], s\<lparr>conv_hist_for_pe := [], ment2ent := Map.empty\<rparr>)"
    if "list_items (heap s) conv = []"
    using a that by (simp add: returnE_def)
  show ?thesis using True a b c by simp
next
  case False
  then obtain e where e: "error_check (heap s) conv = Inl e"
    using error_check_Inr[of "heap s" conv] by (cases "error_check (heap s) conv") auto
  then show ?thesis using False by (simp add: annotate_closed)
qed

theorem annotate_resets_state_witness:
  "valid_conv (heap s0) (Ref 0) \<and>
   annotate M0 (Ref 0) s0 =
     annotate_loop M0 (list_items (heap s0) (Ref 0)) []
       (s0\<lparr>conv_hist_for_pe := [], ment2ent := Map.empty\<rparr>) \<and>
   annotate M0 (Ref 0) (s0\<lparr>conv_hist_for_pe := conv_hist_for_pe s0', ment2ent := ment2ent s0'\<rparr>)
     = annotate M0 (Ref 0) s0 \<and>
   valid_conv (heap s_stale) (Ref 0) \<and> list_items (heap s_stale) (Ref 0) = [] \<and>
   conv_hist_for_pe s_stale \<noteq> [] \<and>
   annotate M0 (Ref 0) s_stale =
     (Inr [], s_stale\<lparr>conv_hist_for_pe := [], ment2ent := Map.empty\<rparr>) \<and>
   \<not> valid_conv (heap s0) (Ref 1) \<and> snd (annotate M0 (Ref 1) s0) = s0"
  using valid0 invalid1 stale_valid stale_items stale_hist
    annotate_resets_state[where s = s0 and conv = "Ref 0" and M = M0
      and hs = "conv_hist_for_pe s0'" and m = "ment2ent s0'"]
    annotate_resets_state[where s = s_stale and conv = "Ref 0" and M = M0
      and hs = "[]" and m = Map.empty]
    annotate_resets_state[where s = s0 and conv = "Ref 1" and M = M0
      and hs = "[]" and m = Map.empty]
  by (simp add: returnE_def)

text \<open>
  The unamended statement, that the history and the map are discarded at the end of the
  call, fails: after the sample call the instance still holds the history of that call and
  the entity of the mention linked in it.
\<close>

theorem state_left_behind:
  "conv_hist_for_pe (snd (annotate M0 (Ref 0) s0)) \<noteq> [] \<and>
   ment2ent (snd (annotate M0 (Ref 0) s0)) (AStr ''Rex'') = Some (AStr ''Rex_(dog)'')"
  by (simp add: run0 s0'_def)

section \<open>Duplicate mentions\<close>

text \<open>
  Claim C5. The mention-to-entity map is last-write-wins within a turn and across the turns
  of one call. When \<^verbatim>\<open>annotate\<close> returns on a valid conversation, take the entity-linking
  results of its turns in the order of the turns. The map after the call sends every mention
  text to the entity of the last of all these results that carries it, and holds nothing
  else; so it sends a mention text to the entity of the last result for it of the most
  recent turn that has a result for it, whatever earlier results of that turn or earlier
  turns recorded.
\<close>

theorem ment2ent_last_write_wins:
  assumes "valid_conv (heap s) conv" and "annotate M conv s = (Inr ret, s')"
  shows "\<exists>els. length els = length (list_items (heap s) conv) \<and>
     (\<forall>i < length els.
        linked_at M (heap s) (list_items (heap s) conv) []
          (s\<lparr>conv_hist_for_pe := [], ment2ent := Map.empty\<rparr>) i (els ! i)) \<and>
     (\<forall>k. ment2ent s' k = latest (concat els) None k) \<and>
     (\<forall>i k. i < length els \<and> (\<exists>a \<in> set (els ! i). a ! 2 = k) \<and>
            (\<forall>j. i < j \<and> j < length els \<longrightarrow> (\<forall>a \<in> set (els ! j). a ! 2 \<noteq> k))
        \<longrightarrow> ment2ent s' k = latest (els ! i) None k)"
proof -
  let ?s0 = "s\<lparr>conv_hist_for_pe := [], ment2ent := Map.empty\<rparr>"
  let ?turns = "list_items (heap s) conv"
  have l: "annotate_loop M ?turns [] ?s0 = (Inr ret, s')"
    by (rule annotate_Inr_loop[OF assms(2)])
  have v: "list_all (valid_turn (heap s)) ?turns" using assms(1) by (simp add: valid_conv_def)
  from annotate_loop_map[OF l, of "heap s" "[]"] v obtain els where
    e: "length els = length ?turns"
       "\<forall>i < length ?turns. linked_at M (heap s) ?turns [] ?s0 i (els ! i)"
       "\<forall>k. ment2ent s' k = latest (concat els) None k" by auto
  have "ment2ent s' k = latest (els ! i) None k"
    if "i < length els" "\<exists>a \<in> set (els ! i). a ! 2 = k"
       "\<forall>j. i < j \<and> j < length els \<longrightarrow> (\<forall>a \<in> set (els ! j). a ! 2 \<noteq> k)" for i k
    using e(3) latest_most_recent[OF that, of None] by simp
  then show ?thesis using e by (intro exI[of _ els]) auto
qed

theorem ment2ent_last_write_wins_witness:
  "valid_conv (heap s5) (Ref 0) \<and>
   annotate M5 (Ref 0) s5 = (Inr [Ref 4, Ref 9, Ref 10], snd (annotate M5 (Ref 0) s5)) \<and>
   ment2ent s5 (AStr ''Bob'') = Some (AStr ''Bob_(old)'') \<and>
   ment2ent (snd (annotate M5 (Ref 0) s5)) (AStr ''Rex'') = Some (AStr ''Rex_(band)'') \<and>
   ment2ent (snd (annotate M5 (Ref 0) s5)) (AStr ''Ann'') = Some (AStr ''Ann_(name)'') \<and>
   ment2ent (snd (annotate M5 (Ref 0) s5)) (AStr ''Bob'') = None \<and>
   (\<exists>els. length els = length (list_items (heap s5) (Ref 0)) \<and>
     (\<forall>i < length els.
        linked_at M5 (heap s5) (list_items (heap s5) (Ref 0)) []
          (s5\<lparr>conv_hist_for_pe := [], ment2ent := Map.empty\<rparr>) i (els ! i)) \<and>
     (\<forall>k. ment2ent (snd (annotate M5 (Ref 0) s5)) k = latest (concat els) None k) \<and>
     (\<forall>i k. i < length els \<and> (\<exists>a \<in> set (els ! i). a ! 2 = k) \<and>
            (\<forall>j. i < j \<and> j < length els \<longrightarrow> (\<forall>a \<in> set (els ! j). a ! 2 \<noteq> k))
        \<longrightarrow> ment2ent (snd (annotate M5 (Ref 0) s5)) k = latest (els ! i) None k))"
proof -
  have h: "annotate M5 (Ref 0) s5 = (Inr [Ref 4, Ref 9, Ref 10], snd (annotate M5 (Ref 0) s5))"
    using run5 by (simp add: prod_eq_iff)
  have b: "ment2ent s5 (AStr ''Bob'') = Some (AStr ''Bob_(old)'')" by (simp add: s5_def)
  show ?thesis
    using valid5 h b run5_map ment2ent_last_write_wins[OF valid5 h] by simp
qed

section \<open>One target personal mention at a time\<close>

text \<open>
  Claim C6. In the loop of \<^verbatim>\<open>_pe\<close>, for a detected personal mention (a row of three
  fields, the history being non-empty as it is inside \<^verbatim>\<open>annotate\<close>), the \<^verbatim>\<open>pems\<close> field of
  the last record of the history is set to exactly that single mention, and it is this
  history that the preprocessor and the postprocessor see. The step raises the single-target
  assertion failure exactly when the preprocessor returns a number of items other than one,
  it never raises an IndexError (so indexing the first item is safe), and it returns exactly
  when the preprocessor returns one item and the scorer and the postprocessor return, the
  accepted results being appended to the outputs.
\<close>

theorem pe_target_single:
  assumes "conv_hist_for_pe s \<noteq> []" and "unpack3 row = Inr (a, b, pem)"
  shows "snd (pe_target M row outs s) = with_target pem s \<and>
     pems (last (conv_hist_for_pe (with_target pem s))) = Some [pem] \<and>
     (fst (pe_target M row outs s) = Inl (AssertionError OneTargetMessage)) =
       (\<exists>ti ds. get_tokens_with_info M (conv_hist_for_pe (with_target pem s)) = Inr ti \<and>
           get_input_of_pe_linking M ti = Inr ds \<and> length ds \<noteq> 1) \<and>
     fst (pe_target M row outs s) \<noteq> Inl IndexError \<and>
     (\<forall>outs'. (fst (pe_target M row outs s) = Inr outs') =
        (\<exists>ti d sc res.
           get_tokens_with_info M (conv_hist_for_pe (with_target pem s)) = Inr ti \<and>
           get_input_of_pe_linking M ti = Inr [d] \<and>
           get_scores M d = Inr sc \<and>
           get_results M d (conv_hist_for_pe (with_target pem s)) (threshold M) sc = Inr res \<and>
           outs' = outs @ res))"
proof -
  note c = pe_target_closed[OF assms, of M outs]
  have 1: "snd (pe_target M row outs s) = with_target pem s"
    unfolding c by (simp split: sum.splits list.splits)
  have 2: "pems (last (conv_hist_for_pe (with_target pem s))) = Some [pem]"
    by (simp add: with_target_def)
  have 3: "(fst (pe_target M row outs s) = Inl (AssertionError OneTargetMessage)) =
       (\<exists>ti ds. get_tokens_with_info M (conv_hist_for_pe (with_target pem s)) = Inr ti \<and>
           get_input_of_pe_linking M ti = Inr ds \<and> length ds \<noteq> 1)"
    unfolding c by (auto split: sum.splits list.splits)
  have 4: "fst (pe_target M row outs s) \<noteq> Inl IndexError"
    unfolding c by (simp split: sum.splits list.splits)
  have 5: "(fst (pe_target M row outs s) = Inr outs') =
        (\<exists>ti d sc res.
           get_tokens_with_info M (conv_hist_for_pe (with_target pem s)) = Inr ti \<and>
           get_input_of_pe_linking M ti = Inr [d] \<and>
           get_scores M d = Inr sc \<and>
           get_results M d (conv_hist_for_pe (with_target pem s)) (threshold M) sc = Inr res \<and>
           outs' = outs @ res)" for outs'
    unfolding c by (auto split: sum.splits list.splits)
  show ?thesis using 1 2 3 4 5 by blast
qed

theorem pe_target_single_witness:
  "conv_hist_for_pe s_mid \<noteq> [] \<and>
   unpack3 row0 = Inr (AInt 0, AInt 6, AStr ''my dog'') \<and>
   fst (pe_target M1 row0 [] s_mid) = Inl (AssertionError OneTargetMessage) \<and>
   fst (pe_target M0 row0 [] s_mid) =
     Inr [[(''personal_entity_mention'', AStr ''my dog''), (''mention'', AStr ''Rex'')]] \<and>
   snd (pe_target M0 row0 [] s_mid) = with_target (AStr ''my dog'') s_mid \<and>
   pems (last (conv_hist_for_pe (with_target (AStr ''my dog'') s_mid))) = Some [AStr ''my dog''] \<and>
   (\<exists>ti ds. get_tokens_with_info M1 (conv_hist_for_pe (with_target (AStr ''my dog'') s_mid)) = Inr ti \<and>
      get_input_of_pe_linking M1 ti = Inr ds \<and> length ds \<noteq> 1)"
  using s_mid_hist row0_unpack pe_target_run1 pe_target_run0
    pe_target_single[OF s_mid_hist row0_unpack, of M0 "[]"]
    pe_target_single[OF s_mid_hist row0_unpack, of M1 "[]"]
  by simp

section \<open>The form of an annotation\<close>

text \<open>
  Claim C7, as amended. Every annotation is a list of four fields: start offset, span
  length, mention text, entity. The annotations returned by \<^verbatim>\<open>_el\<close> are the first four
  fields of the results of the disambiguation, which was called with the start and length
  of the detected mentions. Each annotation returned by \<^verbatim>\<open>_pe\<close> belongs to one accepted
  result of the postprocessor, in order; it carries the text of the personal mention named
  by that result, the start offset and length of the last row of the detector with that
  text (the mention's own row when no other detected mention has the same text), and the
  entity that the mention map gives for the antecedent mention of the result.
\<close>

theorem annotations_are_quadruples:
  "(el M utt s = (Inr anns, s') \<longrightarrow>
      (\<exists>md_results el_results.
         md M utt = Inr md_results \<and>
         generate_response M utt (map (\<lambda>r. [r ! 0, r ! 1]) md_results) = Inr el_results \<and>
         anns = map (take 4) el_results \<and>
         list_all (\<lambda>a. length a = 4) anns)) \<and>
   (pe M utt s = (Inr anns, s') \<longrightarrow>
      (\<exists>pem_results outputs s1.
         pem_detector M utt = Inr pem_results \<and>
         pe_targets M pem_results [] s = (Inr outputs, s1) \<and>
         list_all2 (\<lambda>r a. \<exists>p eem ent.
             p \<in> set pem_results \<and> length p = 3 \<and>
             p = last (filter (\<lambda>q. q ! 2 = p ! 2) pem_results) \<and>
             map_of r ''personal_entity_mention'' = Some (p ! 2) \<and>
             map_of r ''mention'' = Some eem \<and> ment2ent s eem = Some ent \<and>
             a = [p ! 0, p ! 1, p ! 2, ent]) outputs anns))"
proof (intro conjI impI)
  assume "el M utt s = (Inr anns, s')"
  from el_Inr[OF this] obtain md_results el_results where
    a: "md M utt = Inr md_results"
       "generate_response M utt (map (\<lambda>r. [r ! 0, r ! 1]) md_results) = Inr el_results"
       "\<forall>r \<in> set el_results. 4 \<le> length r" "anns = map (take 4) el_results"
    by blast
  have "list_all (\<lambda>a. length a = 4) anns" using a(3,4) by (auto simp: list_all_iff)
  then show "\<exists>md_results el_results.
         md M utt = Inr md_results \<and>
         generate_response M utt (map (\<lambda>r. [r ! 0, r ! 1]) md_results) = Inr el_results \<and>
         anns = map (take 4) el_results \<and>
         list_all (\<lambda>a. length a = 4) anns"
    using a by blast
next
  assume "pe M utt s = (Inr anns, s')"
  from pe_Inr[OF this] obtain pem_results p2r outputs s1 where
    a: "pem_detector M utt = Inr pem_results"
       "dict_of_rows Inr pem_results Map.empty = Inr p2r"
       "pe_targets M pem_results [] s = (Inr outputs, s1)"
       "pe_entities p2r (ment2ent s1) outputs [] = Inr anns"
    by blast
  have m: "ment2ent s1 = ment2ent s" using pe_targets_map[OF a(3)] .
  have l3: "\<forall>row \<in> set pem_results. length row = 3" using pe_targets_Inr_rows[OF a(3)] by simp
  from pe_entities_Inr[OF a(4)] have
    "list_all2 (\<lambda>r a. \<exists>pem p eem ent.
           map_of r ''personal_entity_mention'' = Some pem \<and> p2r pem = Some p \<and>
           map_of r ''mention'' = Some eem \<and> ment2ent s1 eem = Some ent \<and>
           2 < length p \<and> a = [p ! 0, p ! 1, p ! 2, ent]) outputs anns" by simp
  then have "list_all2 (\<lambda>r a. \<exists>p eem ent.
             p \<in> set pem_results \<and> length p = 3 \<and>
             p = last (filter (\<lambda>q. q ! 2 = p ! 2) pem_results) \<and>
             map_of r ''personal_entity_mention'' = Some (p ! 2) \<and>
             map_of r ''mention'' = Some eem \<and> ment2ent s eem = Some ent \<and>
             a = [p ! 0, p ! 1, p ! 2, ent]) outputs anns"
  proof (rule list_all2_mono)
    fix r a
    assume "\<exists>pem p eem ent.
           map_of r ''personal_entity_mention'' = Some pem \<and> p2r pem = Some p \<and>
           map_of r ''mention'' = Some eem \<and> ment2ent s1 eem = Some ent \<and>
           2 < length p \<and> a = [p ! 0, p ! 1, p ! 2, ent]"
    then obtain pem p eem ent where
      f: "map_of r ''personal_entity_mention'' = Some pem" "p2r pem = Some p"
         "map_of r ''mention'' = Some eem" "ment2ent s1 eem = Some ent"
         "a = [p ! 0, p ! 1, p ! 2, ent]" by blast
    from pem2result_lookup[OF a(2) f(2)] have p: "p \<in> set pem_results" "p ! 2 = pem"
      "p = last (filter (\<lambda>q. q ! 2 = p ! 2) pem_results)" by auto
    show "\<exists>p eem ent.
             p \<in> set pem_results \<and> length p = 3 \<and>
             p = last (filter (\<lambda>q. q ! 2 = p ! 2) pem_results) \<and>
             map_of r ''personal_entity_mention'' = Some (p ! 2) \<and>
             map_of r ''mention'' = Some eem \<and> ment2ent s eem = Some ent \<and>
             a = [p ! 0, p ! 1, p ! 2, ent]"
      using f p l3 m by auto
  qed
  then show "\<exists>pem_results outputs s1.
         pem_detector M utt = Inr pem_results \<and>
         pe_targets M pem_results [] s = (Inr outputs, s1) \<and>
         list_all2 (\<lambda>r a. \<exists>p eem ent.
             p \<in> set pem_results \<and> length p = 3 \<and>
             p = last (filter (\<lambda>q. q ! 2 = p ! 2) pem_results) \<and>
             map_of r ''personal_entity_mention'' = Some (p ! 2) \<and>
             map_of r ''mention'' = Some eem \<and> ment2ent s eem = Some ent \<and>
             a = [p ! 0, p ! 1, p ! 2, ent]) outputs anns"
    using a by blast
qed

theorem annotations_are_quadruples_witness:
  "el M0 utt0 s_begin = (Inr [[AInt 7, AInt 3, AStr ''Rex'', AStr ''Rex_(dog)'']], s_mid) \<and>
   pe M0 utt0 s_mid =
     (Inr [[AInt 0, AInt 6, AStr ''my dog'', AStr ''Rex_(dog)'']], snd (pe M0 utt0 s_mid)) \<and>
   (\<exists>md_results el_results.
      md M0 utt0 = Inr md_results \<and>
      generate_response M0 utt0 (map (\<lambda>r. [r ! 0, r ! 1]) md_results) = Inr el_results \<and>
      [[AInt 7, AInt 3, AStr ''Rex'', AStr ''Rex_(dog)'']] = map (take 4) el_results \<and>
      list_all (\<lambda>a. length a = 4) [[AInt 7, AInt 3, AStr ''Rex'', AStr ''Rex_(dog)'']]) \<and>
   (\<exists>pem_results outputs s1.
      pem_detector M0 utt0 = Inr pem_results \<and>
      pe_targets M0 pem_results [] s_mid = (Inr outputs, s1) \<and>
      list_all2 (\<lambda>r a. \<exists>p eem ent.
          p \<in> set pem_results \<and> length p = 3 \<and>
          p = last (filter (\<lambda>q. q ! 2 = p ! 2) pem_results) \<and>
          map_of r ''personal_entity_mention'' = Some (p ! 2) \<and>
          map_of r ''mention'' = Some eem \<and> ment2ent s_mid eem = Some ent \<and>
          a = [p ! 0, p ! 1, p ! 2, ent]) outputs
        [[AInt 0, AInt 6, AStr ''my dog'', AStr ''Rex_(dog)'']])"
proof -
  have p: "pe M0 utt0 s_mid =
     (Inr [[AInt 0, AInt 6, AStr ''my dog'', AStr ''Rex_(dog)'']], snd (pe M0 utt0 s_mid))"
    using pe_run_mid by (simp add: prod_eq_iff)
  show ?thesis
    using el_run0 p
      annotations_are_quadruples[where M = M0 and utt = utt0 and s = s_begin and s' = s_mid
        and anns = "[[AInt 7, AInt 3, AStr ''Rex'', AStr ''Rex_(dog)'']]"]
      annotations_are_quadruples[where M = M0 and utt = utt0 and s = s_mid
        and s' = "snd (pe M0 utt0 s_mid)"
        and anns = "[[AInt 0, AInt 6, AStr ''my dog'', AStr ''Rex_(dog)'']]"]
    by blast
qed

text \<open>
  The unamended statement, that each personal annotation carries the personal mention's own
  start offset, fails when a text is detected twice: \<^verbatim>\<open>pem2result\<close> is keyed by the text and
  keeps the last row, so both annotations carry the offset of the second occurrence.
\<close>

theorem repeated_text_takes_last_offset:
  "pem_detector M6 utt6 = Inr [[AInt 0, AInt 6, AStr ''my dog''],
                               [AInt 18, AInt 6, AStr ''my dog'']] \<and>
   fst (pe M6 utt6 s_dup) =
     Inr [[AInt 18, AInt 6, AStr ''my dog'', AStr ''Rex_(dog)''],
          [AInt 18, AInt 6, AStr ''my dog'', AStr ''Rex_(dog)'']]"
  by (simp add: run6) (simp add: M6_def M0_def)

section \<open>The input conversation is not modified\<close>

text \<open>
  Claim C8. For every valid input list, \<^verbatim>\<open>annotate\<close> only adds objects to the store:
  whether it returns or raises, every object that existed before the call is unchanged, so
  the input list still has the same turns and every turn dict the same items; and the
  records it returns are objects allocated during the call, none of them an input turn.
\<close>

theorem annotate_keeps_input:
  assumes "valid_conv (heap s) conv"
  shows "\<exists>ext. heap (snd (annotate M conv s)) = heap s @ ext \<and>
      list_items (heap (snd (annotate M conv s))) conv = list_items (heap s) conv \<and>
      (\<forall>turn \<in> set (list_items (heap s) conv).
         dict_items (heap (snd (annotate M conv s))) turn = dict_items (heap s) turn) \<and>
      (\<forall>ret. fst (annotate M conv s) = Inr ret \<longrightarrow>
         set ret \<subseteq> Ref ` {length (heap s) ..< length (heap (snd (annotate M conv s)))})"
proof -
  let ?s0 = "s\<lparr>conv_hist_for_pe := [], ment2ent := Map.empty\<rparr>"
  obtain r s' where a: "annotate M conv s = (r, s')" by (cases "annotate M conv s")
  have "error_check (heap s) conv = Inr ()" using assms error_check_Inr by simp
  then have l: "annotate_loop M (list_items (heap s) conv) [] ?s0 = (r, s')"
    using a by (simp add: annotate_closed)
  from annotate_loop_heap[OF l] obtain ext where e: "heap s' = heap s @ ext"
    and r: "\<And>ret'. r = Inr ret' \<Longrightarrow> set ret' \<subseteq> Ref ` {length (heap s) ..< length (heap s')}"
    by auto
  have li: "list_items (heap s') conv = list_items (heap s) conv"
    using assms e by (simp add: valid_conv_def list_items_append)
  have di: "dict_items (heap s') turn = dict_items (heap s) turn"
    if "turn \<in> set (list_items (heap s) conv)" for turn
  proof -
    have "valid_turn (heap s) turn" using assms that by (simp add: valid_conv_def list_all_iff)
    then show ?thesis using e by (simp add: valid_turn_def dict_items_append)
  qed
  show ?thesis using a e li di r by auto
qed

theorem annotate_keeps_input_witness:
  "valid_conv (heap s0) (Ref 0) \<and> fst (annotate M0 (Ref 0) s0) = Inr [Ref 3, Ref 7] \<and>
   list_items (heap s0) (Ref 0) = [Ref 1, Ref 2] \<and>
   (\<exists>ext. heap (snd (annotate M0 (Ref 0) s0)) = heap s0 @ ext \<and>
      list_items (heap (snd (annotate M0 (Ref 0) s0))) (Ref 0) = list_items (heap s0) (Ref 0) \<and>
      (\<forall>turn \<in> set (list_items (heap s0) (Ref 0)).
         dict_items (heap (snd (annotate M0 (Ref 0) s0))) turn = dict_items (heap s0) turn) \<and>
      (\<forall>ret. fst (annotate M0 (Ref 0) s0) = Inr ret \<longrightarrow>
         set ret \<subseteq> Ref ` {length (heap s0) ..< length (heap (snd (annotate M0 (Ref 0) s0)))}))"
proof -
  have l: "list_items (heap s0) (Ref 0) = [Ref 1, Ref 2]"
    by (simp add: list_items_def lookup_def s0_def heap0_def)
  have r: "fst (annotate M0 (Ref 0) s0) = Inr [Ref 3, Ref 7]" by (simp add: run0)
  show ?thesis using valid0 l r annotate_keeps_input[OF valid0, of M0] by blast
qed

section \<open>No target personal mention is left between turns\<close>

text \<open>
  Claim C9. When \<^verbatim>\<open>_pe\<close> returns, the \<^verbatim>\<open>pems\<close> field of the last record of the history
  is the empty list. Hence at every point between two turns of a call of \<^verbatim>\<open>annotate\<close> that
  returns, the history has one record per turn processed so far, with the speaker of that
  turn; the record of a USER turn has \<^verbatim>\<open>pems\<close> empty, and the record of a SYSTEM turn has
  neither \<^verbatim>\<open>pems\<close> nor \<^verbatim>\<open>mentions\<close>.
\<close>

theorem pems_reset_between_turns:
  "(pe M utt s = (Inr anns, s') \<longrightarrow>
      conv_hist_for_pe s' \<noteq> [] \<and> pems (last (conv_hist_for_pe s')) = Some []) \<and>
   (annotate M conv s = (Inr ret, s'') \<longrightarrow>
      (\<exists>ret_i s_i.
         annotate_loop M (take i (list_items (heap s) conv)) []
           (s\<lparr>conv_hist_for_pe := [], ment2ent := Map.empty\<rparr>) = (Inr ret_i, s_i) \<and>
         annotate_loop M (drop i (list_items (heap s) conv)) ret_i s_i = (Inr ret, s'') \<and>
         list_all2
           (\<lambda>turn t. map_of (dict_items (heap s) turn) k_speaker = Some (speaker t) \<and> clean_turn t)
           (take i (list_items (heap s) conv)) (conv_hist_for_pe s_i)))"
proof (intro conjI impI)
  assume "pe M utt s = (Inr anns, s')"
  from pe_pems[OF this] show "conv_hist_for_pe s' \<noteq> []"
    and "pems (last (conv_hist_for_pe s')) = Some []" by auto
next
  let ?s0 = "s\<lparr>conv_hist_for_pe := [], ment2ent := Map.empty\<rparr>"
  let ?turns = "list_items (heap s) conv"
  assume an: "annotate M conv s = (Inr ret, s'')"
  have "error_check (heap s) conv = Inr ()"
    using an by (cases "error_check (heap s) conv") (auto simp: annotate_closed)
  then have "list_all (valid_turn (heap s)) ?turns"
    using error_check_Inr[of "heap s" conv] by (simp add: valid_conv_def)
  then have v: "list_all (valid_turn (heap s)) (take i ?turns)"
    by (auto simp: list_all_iff dest: in_set_takeD)
  from annotate_loop_cut[OF annotate_Inr_loop[OF an], of i] obtain ret_i s_i where
    a: "annotate_loop M (take i ?turns) [] ?s0 = (Inr ret_i, s_i)"
    and b: "annotate_loop M (drop i ?turns) ret_i s_i = (Inr ret, s'')"
    by blast
  from annotate_loop_hist[OF a, of "heap s" "[]"] v
  have "list_all2
           (\<lambda>turn t. map_of (dict_items (heap s) turn) k_speaker = Some (speaker t) \<and> clean_turn t)
           (take i ?turns) (conv_hist_for_pe s_i)" by simp
  then show "\<exists>ret_i s_i.
         annotate_loop M (take i ?turns) [] ?s0 = (Inr ret_i, s_i) \<and>
         annotate_loop M (drop i ?turns) ret_i s_i = (Inr ret, s'') \<and>
         list_all2
           (\<lambda>turn t. map_of (dict_items (heap s) turn) k_speaker = Some (speaker t) \<and> clean_turn t)
           (take i ?turns) (conv_hist_for_pe s_i)"
    using a b by blast
qed

theorem pems_reset_between_turns_witness:
  "pe M0 (Atom (AStr ''my dog Rex''))
     \<lparr>conv_hist_for_pe = [\<lparr>speaker = USER, utterance = Atom (AStr ''my dog Rex''),
                            mentions = Some [AStr ''Rex''], pems = None\<rparr>],
      ment2ent = [AStr ''Rex'' \<mapsto> AStr ''Rex_(dog)''], heap = heap0\<rparr> =
   (Inr [[AInt 0, AInt 6, AStr ''my dog'', AStr ''Rex_(dog)'']],
     \<lparr>conv_hist_for_pe = [\<lparr>speaker = USER, utterance = Atom (AStr ''my dog Rex''),
                            mentions = Some [AStr ''Rex''], pems = Some []\<rparr>],
      ment2ent = [AStr ''Rex'' \<mapsto> AStr ''Rex_(dog)''], heap = heap0\<rparr>) \<and>
   annotate M0 (Ref 0) s0 = (Inr [Ref 3, Ref 7], s0') \<and>
   (\<exists>ret_i s_i.
      annotate_loop M0 (take 1 (list_items (heap s0) (Ref 0))) []
        (s0\<lparr>conv_hist_for_pe := [], ment2ent := Map.empty\<rparr>) = (Inr ret_i, s_i) \<and>
      annotate_loop M0 (drop 1 (list_items (heap s0) (Ref 0))) ret_i s_i
        = (Inr [Ref 3, Ref 7], s0') \<and>
      list_all2
        (\<lambda>turn t. map_of (dict_items (heap s0) turn) k_speaker = Some (speaker t) \<and> clean_turn t)
        (take 1 (list_items (heap s0) (Ref 0))) (conv_hist_for_pe s_i))"
  using pe_run0 run0
    pems_reset_between_turns[where M = M0 and conv = "Ref 0" and s = s0 and i = 1
      and ret = "[Ref 3, Ref 7]" and s'' = s0' and utt = "Atom (AStr ''my dog Rex'')"
      and anns = "[[AInt 0, AInt 6, AStr ''my dog'', AStr ''Rex_(dog)'']]"]
  by blast

section \<open>An antecedent or a personal mention that cannot be resolved\<close>

text \<open>
  Claim C10. Let a USER turn reach step 3 of \<^verbatim>\<open>_pe\<close> with an accepted result whose
  antecedent mention is not a key of the mention map accumulated so far, or whose personal
  mention is not the text of any row of the detector for this utterance. Then \<^verbatim>\<open>_pe\<close>
  raises a KeyError, and so does the loop of \<^verbatim>\<open>annotate\<close> at this turn: nothing is skipped
  and no partial result is returned.
\<close>

theorem unresolved_antecedent_raises:
  assumes "getitem (heap s) turn k_utterance = Inr utt"
    and "getitem (heap s) turn k_speaker = Inr USER"
    and "el M utt (begin_turn USER utt s) = (Inr elr, s2)"
    and "pem_detector M utt = Inr pem_results"
    and "pe_targets M pem_results [] s2 = (Inr outputs, s3)"
    and "r \<in> set outputs"
    and "map_of r ''personal_entity_mention'' = Some pem"
    and "map_of r ''mention'' = Some eem"
    and "ment2ent s2 eem = None \<or> pem \<notin> (\<lambda>p. p ! 2) ` set pem_results"
  shows "\<exists>k s'. pe M utt s2 = (Inl (KeyError k), s') \<and>
           annotate_loop M (turn # turns) ret s = (Inl (KeyError k), s')"
proof -
  have ne: "pem_results \<noteq> []"
  proof
    assume "pem_results = []"
    then have "outputs = []" using assms(5) by (simp add: returnE_def)
    then show False using assms(6) by simp
  qed
  from pe_after_targets[OF assms(4,5) ne] obtain p2r s' where
    p: "dict_of_rows Inr pem_results Map.empty = Inr p2r"
    and pe: "pe M utt s2 = (pe_entities p2r (ment2ent s2) outputs [], s')" by blast
  have rows: "\<forall>row \<in> set pem_results. length row = 3"
    using pe_targets_Inr_rows[OF assms(5)] by simp
  have ran: "\<forall>q \<in> ran p2r. 2 < length q"
  proof
    fix q assume "q \<in> ran p2r"
    then obtain k where "p2r k = Some q" by (auto simp: ran_def)
    from pem2result_lookup[OF p this] rows show "2 < length q" by auto
  qed
  have bad: "p2r pem = None \<or> ment2ent s2 eem = None"
    using assms(9) pem2result_None[OF p, of pem] by auto
  from pe_entities_bad[where p2r = p2r and m2e = "ment2ent s2" and ret = "[]",
      OF assms(6,7,8) bad ran] obtain k where
    "pe_entities p2r (ment2ent s2) outputs [] = Inl (KeyError k)" by blast
  then have f: "pe M utt s2 = (Inl (KeyError k), s')" using pe by simp
  have "annotate_turn M turn ret s = (Inl (KeyError k), s')"
    by (rule annotate_turn_pe_fail[OF assms(1,2,3) f])
  then have "annotate_loop M (turn # turns) ret s = (Inl (KeyError k), s')"
    by (simp add: bindE_def)
  then show ?thesis using f by blast
qed

theorem unresolved_antecedent_raises_witness:
  "getitem (heap s0) (Ref 1) k_utterance = Inr utt0 \<and>
   getitem (heap s0) (Ref 1) k_speaker = Inr USER \<and>
   fst (el M3 utt0 (begin_turn USER utt0 s0)) =
     Inr [[AInt 7, AInt 3, AStr ''Rex'', AStr ''Rex_(dog)'']] \<and>
   pem_detector M3 utt0 = Inr [row0] \<and>
   fst (pe_targets M3 [row0] [] (snd (el M3 utt0 (begin_turn USER utt0 s0)))) =
     Inr [[(''personal_entity_mention'', AStr ''my dog''), (''mention'', AStr ''Fido'')]] \<and>
   ment2ent (snd (el M3 utt0 (begin_turn USER utt0 s0))) (AStr ''Fido'') = None \<and>
   fst (annotate M3 (Ref 0) s0) = Inl (KeyError (Atom (AStr ''Fido''))) \<and>
   (\<exists>k s'. pe M3 utt0 (snd (el M3 utt0 (begin_turn USER utt0 s0))) = (Inl (KeyError k), s') \<and>
      annotate_loop M3 [Ref 1, Ref 2] [] s0 = (Inl (KeyError k), s'))"
proof -
  let ?s2 = "snd (el M3 utt0 (begin_turn USER utt0 s0))"
  let ?r = "[(''personal_entity_mention'', AStr ''my dog''), (''mention'', AStr ''Fido'')]"
  have e: "el M3 utt0 (begin_turn USER utt0 s0) =
             (Inr [[AInt 7, AInt 3, AStr ''Rex'', AStr ''Rex_(dog)'']], ?s2)"
    using run3_el(1) by (simp add: prod_eq_iff)
  have d: "pem_detector M3 utt0 = Inr [row0]" by (simp add: M3_def M0_def row0_def)
  have t: "pe_targets M3 [row0] [] ?s2 = (Inr [?r], snd (pe_targets M3 [row0] [] ?s2))"
    using run3_targets by (simp add: prod_eq_iff)
  have m: "?r \<in> set [?r]" by simp
  have k1: "map_of ?r ''personal_entity_mention'' = Some (AStr ''my dog'')" by simp
  have k2: "map_of ?r ''mention'' = Some (AStr ''Fido'')" by simp
  have b: "ment2ent ?s2 (AStr ''Fido'') = None \<or> AStr ''my dog'' \<notin> (\<lambda>p. p ! 2) ` set [row0]"
    using run3_el(2) by simp
  show ?thesis
    using run3_reads run3_el d run3_targets run3
      unresolved_antecedent_raises[OF run3_reads e d t m k1 k2 b, of "[Ref 2]" "[]"]
    by simp
qed

end
